theory Spec2Isabelle
  imports Main
begin

section \<open>Errors and results\<close>

text \<open>
  Every exception the module or the date type under it can raise is a value.
  \<open>ValueError\<close> carries its message; \<open>OverflowError\<close> is what the standard
  \<open>date\<close> and \<open>timedelta\<close> types raise when a result leaves their range;
  \<open>NotImplementedError\<close> is raised by \<open>Week.__gt__\<close>.
\<close>

datatype error = ValueError string | OverflowError | NotImplementedError

definition bind_err :: "error + 'a \<Rightarrow> ('a \<Rightarrow> error + 'b) \<Rightarrow> error + 'b" where
  "bind_err m f = (case m of Inl e \<Rightarrow> Inl e | Inr x \<Rightarrow> f x)"

section \<open>Decimal formatting of integers\<close>

definition digit_char :: "nat \<Rightarrow> char" where
  "digit_char n = ''0123456789'' ! n"

fun str_nat :: "nat \<Rightarrow> string" where
  "str_nat n = (if n < 10 then [digit_char n] else str_nat (n div 10) @ [digit_char (n mod 10)])"

declare str_nat.simps [simp del]

text \<open>Python's \<open>str(i)\<close> for an integer.\<close>

definition str_int :: "int \<Rightarrow> string" where
  "str_int i = (if i < 0 then CHR ''-'' # str_nat (nat (- i)) else str_nat (nat i))"

text \<open>The format specification \<open>:02\<close>: zero padding up to width two.\<close>

definition fmt02 :: "int \<Rightarrow> string" where
  "fmt02 i = (let s = str_int i in if length s < 2 then CHR ''0'' # s else s)"

section \<open>The date collaborator: \<open>datetime.date\<close> and \<open>datetime.timedelta\<close>\<close>

text \<open>
  The module works on the standard library's \<open>date\<close> and \<open>timedelta\<close>. They are
  modelled after the reference implementation of the \<open>datetime\<close> module: a date is a
  triple of year, month and day in the proleptic Gregorian calendar, years 1 to 9999,
  and date arithmetic goes through the ordinal (1 for 0001-01-01).
\<close>

definition MINYEAR :: int where "MINYEAR = 1"
definition MAXYEAR :: int where "MAXYEAR = 9999"
definition MAXORDINAL :: int where "MAXORDINAL = 3652059"

definition DAYS_IN_MONTH :: "int list" where
  "DAYS_IN_MONTH = [-1, 31, 28, 31, 30, 31, 30, 31, 31, 30, 31, 30, 31]"

definition DAYS_BEFORE_MONTH :: "int list" where
  "DAYS_BEFORE_MONTH = [-1, 0, 31, 59, 90, 120, 151, 181, 212, 243, 273, 304, 334]"

definition is_leap :: "int \<Rightarrow> bool" where
  "is_leap y = (y mod 4 = 0 \<and> (y mod 100 \<noteq> 0 \<or> y mod 400 = 0))"

definition days_before_year :: "int \<Rightarrow> int" where
  "days_before_year yr = (let y = yr - 1 in y * 365 + y div 4 - y div 100 + y div 400)"

definition days_in_month :: "int \<Rightarrow> int \<Rightarrow> int" where
  "days_in_month y m = (if m = 2 \<and> is_leap y then 29 else DAYS_IN_MONTH ! nat m)"

definition days_before_month :: "int \<Rightarrow> int \<Rightarrow> int" where
  "days_before_month y m = DAYS_BEFORE_MONTH ! nat m + (if m > 2 \<and> is_leap y then 1 else 0)"

definition ymd2ord :: "int \<Rightarrow> int \<Rightarrow> int \<Rightarrow> int" where
  "ymd2ord y m d = days_before_year y + days_before_month y m + d"

definition DI400Y :: int where "DI400Y = 146097"
definition DI100Y :: int where "DI100Y = 36524"
definition DI4Y :: int where "DI4Y = 1461"

definition ord2ymd :: "int \<Rightarrow> int \<times> int \<times> int" where
  "ord2ymd n0 =
     (let n = n0 - 1;
          n400 = n div DI400Y; n = n mod DI400Y;
          yr = n400 * 400 + 1;
          n100 = n div DI100Y; n = n mod DI100Y;
          n4 = n div DI4Y; n = n mod DI4Y;
          n1 = n div 365; n = n mod 365;
          yr = yr + (n100 * 100 + n4 * 4 + n1)
      in if n1 = 4 \<or> n100 = 4 then (yr - 1, 12, 31)
         else
           let leapyear = (n1 = 3 \<and> (n4 \<noteq> 24 \<or> n100 = 3));
               mo = (n + 50) div 32;
               preceding = DAYS_BEFORE_MONTH ! nat mo + (if mo > 2 \<and> leapyear then 1 else 0)
           in if preceding > n
              then let mo' = mo - 1;
                       preceding' = preceding -
                         (DAYS_IN_MONTH ! nat mo' + (if mo' = 2 \<and> leapyear then 1 else 0))
                   in (yr, mo', n - preceding' + 1)
              else (yr, mo, n - preceding + 1))"

datatype date = Date (date_year: int) (date_month: int) (date_day: int)

text \<open>The well-formed dates: the ones the constructor \<open>date(year, month, day)\<close> accepts.\<close>

definition valid_date :: "date \<Rightarrow> bool" where
  "valid_date d =
     (MINYEAR \<le> date_year d \<and> date_year d \<le> MAXYEAR \<and> 1 \<le> date_month d \<and> date_month d \<le> 12 \<and>
      1 \<le> date_day d \<and> date_day d \<le> days_in_month (date_year d) (date_month d))"

definition date_new :: "int \<Rightarrow> int \<Rightarrow> int \<Rightarrow> error + date" where
  "date_new y m d =
     (if \<not> (MINYEAR \<le> y \<and> y \<le> MAXYEAR) then Inl (ValueError ''year must be in 1..9999'')
      else if \<not> (1 \<le> m \<and> m \<le> 12) then Inl (ValueError ''month must be in 1..12'')
      else if \<not> (1 \<le> d \<and> d \<le> days_in_month y m)
        then Inl (ValueError (''day must be in 1..'' @ str_int (days_in_month y m)))
      else Inr (Date y m d))"

definition toordinal :: "date \<Rightarrow> int" where
  "toordinal d = ymd2ord (date_year d) (date_month d) (date_day d)"

definition fromordinal :: "int \<Rightarrow> date" where
  "fromordinal n = (case ord2ymd n of (y, m, d) \<Rightarrow> Date y m d)"

text \<open>\<open>self.toordinal() % 7 or 7\<close>\<close>

definition isoweekday :: "date \<Rightarrow> int" where
  "isoweekday d = (let r = toordinal d mod 7 in if r = 0 then 7 else r)"

text \<open>Dates compare as the tuples \<open>(year, month, day)\<close>.\<close>

definition date_lt :: "date \<Rightarrow> date \<Rightarrow> bool" where
  "date_lt a b =
     (date_year a < date_year b \<or>
      (date_year a = date_year b \<and>
        (date_month a < date_month b \<or> (date_month a = date_month b \<and> date_day a < date_day b))))"

definition date_le :: "date \<Rightarrow> date \<Rightarrow> bool" where
  "date_le a b = (date_lt a b \<or> a = b)"

definition date_gt :: "date \<Rightarrow> date \<Rightarrow> bool" where
  "date_gt a b = date_lt b a"

datatype timedelta = Timedelta (td_days: int) (td_seconds: int) (td_microseconds: int)

text \<open>
  \<open>timedelta(days, seconds, microseconds)\<close> on integers: the carries, then the range
  check on the days.
\<close>

definition timedelta_new :: "int \<Rightarrow> int \<Rightarrow> int \<Rightarrow> error + timedelta" where
  "timedelta_new days seconds microseconds =
     (let s = seconds + microseconds div 1000000;
          us = microseconds mod 1000000;
          d = days + s div 86400;
          s = s mod 86400
      in if \<bar>d\<bar> > 999999999 then Inl OverflowError else Inr (Timedelta d s us))"

definition timedelta_neg :: "timedelta \<Rightarrow> error + timedelta" where
  "timedelta_neg t = timedelta_new (- td_days t) (- td_seconds t) (- td_microseconds t)"

text \<open>\<open>date + timedelta\<close>: only the days count.\<close>

definition date_add :: "date \<Rightarrow> timedelta \<Rightarrow> error + date" where
  "date_add d t =
     (let ordinal = toordinal d + td_days t
      in if 0 < ordinal \<and> ordinal \<le> MAXORDINAL then Inr (fromordinal ordinal)
         else Inl OverflowError)"

text \<open>\<open>date - timedelta\<close> is \<open>self + timedelta(-other.days)\<close>.\<close>

definition date_sub :: "date \<Rightarrow> timedelta \<Rightarrow> error + date" where
  "date_sub d t = bind_err (timedelta_new (- td_days t) 0 0) (date_add d)"

text \<open>\<open>date - date\<close> is \<open>timedelta(days1 - days2)\<close>.\<close>

definition date_diff :: "date \<Rightarrow> date \<Rightarrow> error + timedelta" where
  "date_diff a b = timedelta_new (toordinal a - toordinal b) 0 0"

section \<open>Weekday\<close>

datatype Weekday = MONDAY | TUESDAY | WEDNESDAY | THURSDAY | FRIDAY | SATURDAY | SUNDAY

fun Weekday_value :: "Weekday \<Rightarrow> int" where
  "Weekday_value MONDAY = 1"
| "Weekday_value TUESDAY = 2"
| "Weekday_value WEDNESDAY = 3"
| "Weekday_value THURSDAY = 4"
| "Weekday_value FRIDAY = 5"
| "Weekday_value SATURDAY = 6"
| "Weekday_value SUNDAY = 7"

text \<open>The enumeration's lookup by value, \<open>Weekday(v)\<close>: a value outside 1..7 is a ValueError.\<close>

definition Weekday_new :: "int \<Rightarrow> error + Weekday" where
  "Weekday_new v =
     (if v = 1 then Inr MONDAY else if v = 2 then Inr TUESDAY else if v = 3 then Inr WEDNESDAY
      else if v = 4 then Inr THURSDAY else if v = 5 then Inr FRIDAY else if v = 6 then Inr SATURDAY
      else if v = 7 then Inr SUNDAY
      else Inl (ValueError (str_int v @ '' is not a valid Weekday'')))"

text \<open>\<open>Weekday.__add__\<close>\<close>

definition Weekday_add :: "Weekday \<Rightarrow> int \<Rightarrow> error + Weekday" where
  "Weekday_add self other = Weekday_new ((Weekday_value self + other - 1) mod 7 + 1)"

text \<open>
  \<open>Weekday.__sub__\<close> takes a weekday, and returns the distance
  \<open>(int(self) - int(other)) % 7\<close>, an integer; or it takes an integer, and returns
  the weekday \<open>self + (-other)\<close>.
\<close>

datatype weekday_operand = WeekdayArg Weekday | IntegerArg int

datatype weekday_result = IntegerResult int | WeekdayResult Weekday

definition Weekday_difference :: "Weekday \<Rightarrow> Weekday \<Rightarrow> int" where
  "Weekday_difference self other = (Weekday_value self - Weekday_value other) mod 7"

definition Weekday_sub :: "Weekday \<Rightarrow> weekday_operand \<Rightarrow> error + weekday_result" where
  "Weekday_sub self other =
     (case other of
        WeekdayArg w \<Rightarrow> Inr (IntegerResult (Weekday_difference self w))
      | IntegerArg n \<Rightarrow> bind_err (Weekday_add self (- n)) (\<lambda>w. Inr (WeekdayResult w)))"

definition for_date :: "date \<Rightarrow> error + Weekday" where
  "for_date d = Weekday_new (isoweekday d)"

definition first_of_year :: "Weekday \<Rightarrow> int \<Rightarrow> error + date" where
  "first_of_year self yr =
     bind_err (date_new yr 1 1) (\<lambda>jan1.
       let dy = 1 + (Weekday_value self - isoweekday jan1) mod 7
       in date_new yr 1 dy)"

section \<open>Week\<close>

definition SEVEN_DAYS :: timedelta where
  "SEVEN_DAYS = Timedelta 7 0 0"

datatype Week = Week (start: date)

definition with_date :: "date \<Rightarrow> Weekday \<Rightarrow> error + Week" where
  "with_date d first_wd =
     bind_err (timedelta_new ((isoweekday d - Weekday_value first_wd) mod 7) 0 0) (\<lambda>t.
     bind_err (date_sub d t) (\<lambda>s. Inr (Week s)))"

definition with_number :: "int \<Rightarrow> int \<Rightarrow> Weekday \<Rightarrow> error + Week" where
  "with_number yr number first_wd =
     bind_err (Weekday_add first_wd 3) (\<lambda>midday.
     bind_err (first_of_year midday yr) (\<lambda>first_midday.
     bind_err (timedelta_new (7 * (number - 1) - 3) 0 0) (\<lambda>t.
     bind_err (date_add first_midday t) (\<lambda>s. Inr (Week s)))))"

definition Week_end :: "Week \<Rightarrow> error + date" where
  "Week_end self = date_add (start self) SEVEN_DAYS"

text \<open>\<open>len(Weekday)\<close>\<close>

definition Week_len :: "Week \<Rightarrow> int" where
  "Week_len self = 7"

text \<open>
  \<open>self.start <= date_ < self.end\<close>: a chained comparison, so the end is computed only
  when the first comparison holds.
\<close>

definition Week_contains :: "Week \<Rightarrow> date \<Rightarrow> error + bool" where
  "Week_contains self d =
     (if date_le (start self) d then bind_err (Week_end self) (\<lambda>e. Inr (date_lt d e))
      else Inr False)"

text \<open>
  A generator yields its values one by one and then either stops or raises: the result
  is the list of the values yielded and the error that ended the run, if one did.
\<close>

type_synonym 'a generated = "'a list \<times> error option"

fun Week_iter_from :: "Week \<Rightarrow> int list \<Rightarrow> date generated" where
  "Week_iter_from self [] = ([], None)"
| "Week_iter_from self (offset # offsets) =
     (case bind_err (timedelta_new offset 0 0) (date_add (start self)) of
        Inl e \<Rightarrow> ([], Some e)
      | Inr d \<Rightarrow> (case Week_iter_from self offsets of (ds, r) \<Rightarrow> (d # ds, r)))"

definition Week_iter :: "Week \<Rightarrow> date generated" where
  "Week_iter self = Week_iter_from self [0 .. Week_len self - 1]"

text \<open>
  The right operand of \<open>==\<close> and \<open>>\<close> is any Python value: a Week, or something else.
\<close>

datatype 'a operand = IsWeek Week | NotWeek 'a

definition Week_eq :: "Week \<Rightarrow> 'a operand \<Rightarrow> bool" where
  "Week_eq self other = (case other of IsWeek w \<Rightarrow> start self = start w | NotWeek x \<Rightarrow> False)"

text \<open>
  \<open>hash((type(self), self.start))\<close>: the hash of the pair of the class and the start.
  The hash function of tuples is the interpreter's, and a parameter here.
\<close>

datatype pytype = WeekClass

definition Week_hash :: "(pytype \<times> date \<Rightarrow> int) \<Rightarrow> Week \<Rightarrow> int" where
  "Week_hash tuple_hash self = tuple_hash (WeekClass, start self)"

definition Week_gt :: "Week \<Rightarrow> 'a operand \<Rightarrow> error + bool" where
  "Week_gt self other =
     (case other of NotWeek x \<Rightarrow> Inl NotImplementedError
      | IsWeek w \<Rightarrow> Inr (date_gt (start self) (start w)))"

text \<open>
  The operand of \<open>+\<close> and \<open>-\<close>: a plain integer (no attribute \<open>days\<close>) or a duration.
\<close>

datatype addend = IntArg int | DurArg timedelta

definition Week_add :: "Week \<Rightarrow> addend \<Rightarrow> error + Week" where
  "Week_add self other =
     bind_err (case other of IntArg n \<Rightarrow> timedelta_new (7 * n) 0 0 | DurArg t \<Rightarrow> Inr t) (\<lambda>t.
       if td_days t mod 7 \<noteq> 0 then Inl (ValueError ''must add only whole weeks'')
       else bind_err (date_add (start self) t) (\<lambda>s. Inr (Week s)))"

definition addend_neg :: "addend \<Rightarrow> error + addend" where
  "addend_neg other =
     (case other of IntArg n \<Rightarrow> Inr (IntArg (- n))
      | DurArg t \<Rightarrow> bind_err (timedelta_neg t) (\<lambda>t'. Inr (DurArg t')))"

definition Week_sub :: "Week \<Rightarrow> addend \<Rightarrow> error + Week" where
  "Week_sub self other = bind_err (addend_neg other) (Week_add self)"

definition first_weekday :: "Week \<Rightarrow> error + Weekday" where
  "first_weekday self = for_date (start self)"

text \<open>\<open>self.start + timedelta(days=weekday - self.first_weekday)\<close>\<close>

definition weekday_date :: "Week \<Rightarrow> Weekday \<Rightarrow> error + date" where
  "weekday_date self wd =
     bind_err (first_weekday self) (\<lambda>fw.
     bind_err (timedelta_new (Weekday_difference wd fw) 0 0) (date_add (start self)))"

definition Week_year :: "Week \<Rightarrow> error + int" where
  "Week_year self =
     bind_err (timedelta_new 3 0 0) (\<lambda>t.
     bind_err (date_add (start self) t) (\<lambda>d. Inr (date_year d)))"

definition Week_number :: "Week \<Rightarrow> error + int" where
  "Week_number self =
     bind_err (timedelta_new 3 0 0) (\<lambda>t.
     bind_err (date_add (start self) t) (\<lambda>my_midday.
     bind_err (first_weekday self) (\<lambda>fw.
     bind_err (Weekday_add fw 3) (\<lambda>midday.
     bind_err (Week_year self) (\<lambda>yr.
     bind_err (first_of_year midday yr) (\<lambda>first_midday.
     bind_err (date_diff my_midday first_midday) (\<lambda>delta.
       Inr (1 + td_days delta div 7))))))))"

text \<open>\<open>Week.__str__\<close>: the year, \<open>-W\<close>, and the number on two digits.\<close>

definition Week_str :: "Week \<Rightarrow> error + string" where
  "Week_str self =
     bind_err (Week_year self) (\<lambda>yr.
     bind_err (Week_number self) (\<lambda>number.
       Inr (str_int yr @ ''-W'' @ fmt02 number)))"

section \<open>The calendar: ordinals and dates\<close>

text \<open>
  The conversions between dates and ordinals are inverse to each other, and the order of
  dates is the order of their ordinals. Everything the module computes with dates rests
  on these facts.
\<close>

lemma dby_cycles:
  assumes "0 \<le> n100" "n100 \<le> 3" "0 \<le> n4" "n4 \<le> 24" "0 \<le> n1" "n1 \<le> 3"
  shows "days_before_year (n400 * 400 + 1 + (n100 * 100 + n4 * 4 + n1))
         = 146097 * n400 + 36524 * n100 + 1461 * n4 + 365 * n1"
proof -
  define y where "y = n400 * 400 + (n100 * 100 + n4 * 4 + n1)"
  have d4: "y div 4 = 100 * n400 + 25 * n100 + n4"
    by (rule int_div_pos_eq [where r = n1]) (use assms in \<open>simp_all add: y_def\<close>)
  have d100: "y div 100 = 4 * n400 + n100"
    by (rule int_div_pos_eq [where r = "n4 * 4 + n1"]) (use assms in \<open>simp_all add: y_def\<close>)
  have d400: "y div 400 = n400"
    by (rule int_div_pos_eq [where r = "n100 * 100 + n4 * 4 + n1"]) (use assms in \<open>simp_all add: y_def\<close>)
  have "days_before_year (y + 1) = y * 365 + y div 4 - y div 100 + y div 400"
    by (simp add: days_before_year_def)
  also have "\<dots> = 146097 * n400 + 36524 * n100 + 1461 * n4 + 365 * n1"
    unfolding d4 d100 d400 by (simp add: y_def)
  finally show ?thesis
    by (simp add: y_def add.commute add.left_commute)
qed

lemma is_leap_cycles:
  assumes "0 \<le> n100" "n100 \<le> 3" "0 \<le> n4" "n4 \<le> 24" "0 \<le> n1" "n1 \<le> 3"
  shows "is_leap (n400 * 400 + 1 + (n100 * 100 + n4 * 4 + n1))
         = (n1 = 3 \<and> (n4 \<noteq> 24 \<or> n100 = 3))"
proof -
  define y where "y = n400 * 400 + 1 + (n100 * 100 + n4 * 4 + n1)"
  have m4: "y mod 4 = (n1 + 1) mod 4"
  proof -
    have "y = (n1 + 1) + 4 * (100 * n400 + 25 * n100 + n4)" by (simp add: y_def)
    then show ?thesis by (simp only: mod_mult_self2)
  qed
  have m100: "y mod 100 = (n4 * 4 + n1 + 1) mod 100"
  proof -
    have "y = (n4 * 4 + n1 + 1) + 100 * (4 * n400 + n100)" by (simp add: y_def)
    then show ?thesis by (simp only: mod_mult_self2)
  qed
  have m400: "y mod 400 = (n100 * 100 + n4 * 4 + n1 + 1) mod 400"
  proof -
    have "y = (n100 * 100 + n4 * 4 + n1 + 1) + 400 * n400" by (simp add: y_def)
    then show ?thesis by (simp only: mod_mult_self2)
  qed
  have n1c: "n1 = 0 \<or> n1 = 1 \<or> n1 = 2 \<or> n1 = 3"
    using assms by arith
  have n100c: "n100 = 0 \<or> n100 = 1 \<or> n100 = 2 \<or> n100 = 3"
    using assms by arith
  have a: "(y mod 4 = 0) = (n1 = 3)"
    unfolding m4 using n1c by auto
  have b: "(y mod 100 = 0) = (n4 = 24)" if "n1 = 3"
  proof (cases "n4 = 24")
    case True
    with that show ?thesis by (simp add: m100)
  next
    case False
    with assms have "0 \<le> n4 * 4 + n1 + 1" "n4 * 4 + n1 + 1 < 100" "n4 * 4 + n1 + 1 \<noteq> 0"
      by simp_all
    with False show ?thesis by (simp add: m100)
  qed
  have c: "(y mod 400 = 0) = (n100 = 3)" if "n1 = 3" "n4 = 24"
    unfolding m400 using n100c that by auto
  show ?thesis
    using a b c unfolding is_leap_def y_def [symmetric] by auto
qed


lemma month_estimate:
  fixes n y :: int
  assumes n: "0 \<le> n" "n < 365"
  defines "mo \<equiv> (n + 50) div 32"
  defines "preceding \<equiv> DAYS_BEFORE_MONTH ! nat mo + (if mo > 2 \<and> is_leap y then 1 else 0)"
  shows "preceding > n \<Longrightarrow>
           1 \<le> mo - 1 \<and> mo - 1 \<le> 12
           \<and> preceding - (DAYS_IN_MONTH ! nat (mo - 1) + (if mo - 1 = 2 \<and> is_leap y then 1 else 0))
               = days_before_month y (mo - 1)
           \<and> days_before_month y (mo - 1) \<le> n
           \<and> n < days_before_month y (mo - 1) + days_in_month y (mo - 1)"
    and "\<not> preceding > n \<Longrightarrow>
           1 \<le> mo \<and> mo \<le> 12 \<and> preceding = days_before_month y mo
           \<and> n < days_before_month y mo + days_in_month y mo"
proof -
  have lo: "32 * mo \<le> n + 50" and hi: "n + 50 < 32 * mo + 32"
    unfolding mo_def by arith+
  with n have "1 \<le> mo" "mo \<le> 12"
    by simp_all
  then have cases: "mo = 1 \<or> mo = 2 \<or> mo = 3 \<or> mo = 4 \<or> mo = 5 \<or> mo = 6 \<or> mo = 7 \<or> mo = 8
      \<or> mo = 9 \<or> mo = 10 \<or> mo = 11 \<or> mo = 12"
    by arith
  show "preceding > n \<Longrightarrow>
           1 \<le> mo - 1 \<and> mo - 1 \<le> 12
           \<and> preceding - (DAYS_IN_MONTH ! nat (mo - 1) + (if mo - 1 = 2 \<and> is_leap y then 1 else 0))
               = days_before_month y (mo - 1)
           \<and> days_before_month y (mo - 1) \<le> n
           \<and> n < days_before_month y (mo - 1) + days_in_month y (mo - 1)"
    using cases lo hi n unfolding preceding_def
    by (elim disjE) (simp_all add: days_before_month_def days_in_month_def DAYS_BEFORE_MONTH_def DAYS_IN_MONTH_def split: if_splits)
  show "\<not> preceding > n \<Longrightarrow>
           1 \<le> mo \<and> mo \<le> 12 \<and> preceding = days_before_month y mo
           \<and> n < days_before_month y mo + days_in_month y mo"
    using cases lo hi n unfolding preceding_def
    by (elim disjE) (simp_all add: days_before_month_def days_in_month_def DAYS_BEFORE_MONTH_def DAYS_IN_MONTH_def split: if_splits)
qed


lemma ord2ymd_correct:
  assumes res: "ord2ymd k = (y, m, d)"
  shows "ymd2ord y m d = k \<and> 1 \<le> m \<and> m \<le> 12 \<and> 1 \<le> d \<and> d \<le> days_in_month y m"
proof -
  define n where "n = k - 1"
  define n400 where "n400 = n div 146097"
  define r1 where "r1 = n mod 146097"
  define n100 where "n100 = r1 div 36524"
  define r2 where "r2 = r1 mod 36524"
  define n4 where "n4 = r2 div 1461"
  define r3 where "r3 = r2 mod 1461"
  define n1 where "n1 = r3 div 365"
  define r4 where "r4 = r3 mod 365"
  define yr where "yr = n400 * 400 + 1 + (n100 * 100 + n4 * 4 + n1)"
  define leapyear where "leapyear = (n1 = 3 \<and> (n4 \<noteq> 24 \<or> n100 = 3))"
  define mo where "mo = (r4 + 50) div 32"
  define preceding where
    "preceding = DAYS_BEFORE_MONTH ! nat mo + (if mo > 2 \<and> leapyear then 1 else 0)"
  note defs = n_def n400_def r1_def n100_def r2_def n4_def r3_def n1_def r4_def yr_def
    leapyear_def mo_def preceding_def
  have unfold: "ord2ymd k =
      (if n1 = 4 \<or> n100 = 4 then (yr - 1, 12, 31)
       else if preceding > r4
         then (yr, mo - 1, r4 - (preceding - (DAYS_IN_MONTH ! nat (mo - 1)
                 + (if mo - 1 = 2 \<and> leapyear then 1 else 0))) + 1)
         else (yr, mo, r4 - preceding + 1))"
    by (simp only: ord2ymd_def Let_def defs DI400Y_def DI100Y_def DI4Y_def)
  have b1: "0 \<le> r1" "r1 < 146097" by (simp_all add: r1_def)
  have b2: "0 \<le> r2" "r2 < 36524" by (simp_all add: r2_def)
  have b3: "0 \<le> r3" "r3 < 1461" by (simp_all add: r3_def)
  have b4: "0 \<le> r4" "r4 < 365" by (simp_all add: r4_def)
  have e0: "n = 146097 * n400 + r1" by (simp add: n400_def r1_def)
  have e1: "r1 = 36524 * n100 + r2" by (simp add: n100_def r2_def)
  have e2: "r2 = 1461 * n4 + r3" by (simp add: n4_def r3_def)
  have e3: "r3 = 365 * n1 + r4" by (simp add: n1_def r4_def)
  have c100: "0 \<le> n100" "n100 \<le> 4" using b1 b2 e1 by arith+
  have c4: "0 \<le> n4" "n4 \<le> 24" using b2 b3 e2 by arith+
  have c1: "0 \<le> n1" "n1 \<le> 4" using b3 b4 e3 by arith+
  have k: "k = 146097 * n400 + 36524 * n100 + 1461 * n4 + 365 * n1 + r4 + 1"
    using e0 e1 e2 e3 by (simp add: n_def)
  consider (century) "n100 = 4" | (quad) "n100 \<le> 3" "n1 = 4" | (regular) "n100 \<le> 3" "n1 \<le> 3"
    using c100 c1 by arith
  then show ?thesis
  proof cases
    case century
    with b1 b2 e1 have "r2 = 0" by arith
    with e2 b3 c4 have "n4 = 0" "r3 = 0" by arith+
    with e3 b4 c1 have "n1 = 0" "r4 = 0" by arith+
    have y: "y = n400 * 400 + 1 + (3 * 100 + 24 * 4 + 3)" and "m = 12" and "d = 31"
      using res unfold century \<open>n4 = 0\<close> \<open>n1 = 0\<close> by (simp_all add: yr_def)
    have dby: "days_before_year y = 146097 * n400 + 36524 * 3 + 1461 * 24 + 365 * 3"
      unfolding y by (rule dby_cycles) simp_all
    have leap: "is_leap y"
      unfolding y by (subst is_leap_cycles) simp_all
    show ?thesis
      using leap dby k century \<open>n4 = 0\<close> \<open>n1 = 0\<close> \<open>r4 = 0\<close> \<open>m = 12\<close> \<open>d = 31\<close>
      by (simp add: ymd2ord_def days_before_month_def days_in_month_def
          DAYS_BEFORE_MONTH_def DAYS_IN_MONTH_def)
  next
    case quad
    with e3 b3 b4 have "r4 = 0" by arith
    from quad e2 e3 b2 b4 have "n4 \<le> 23" by arith
    have y: "y = n400 * 400 + 1 + (n100 * 100 + n4 * 4 + 3)" and "m = 12" and "d = 31"
      using res unfold quad by (simp_all add: yr_def)
    have dby: "days_before_year y = 146097 * n400 + 36524 * n100 + 1461 * n4 + 365 * 3"
      unfolding y by (rule dby_cycles) (use c100 c4 quad \<open>n4 \<le> 23\<close> in simp_all)
    have leap: "is_leap y"
      unfolding y by (subst is_leap_cycles) (use c100 c4 quad \<open>n4 \<le> 23\<close> in simp_all)
    show ?thesis
      using leap dby k quad \<open>r4 = 0\<close> \<open>m = 12\<close> \<open>d = 31\<close>
      by (simp add: ymd2ord_def days_before_month_def days_in_month_def
          DAYS_BEFORE_MONTH_def DAYS_IN_MONTH_def)
  next
    case regular
    have dby: "days_before_year yr = 146097 * n400 + 36524 * n100 + 1461 * n4 + 365 * n1"
      unfolding yr_def by (rule dby_cycles) (use c100 c4 c1 regular in simp_all)
    have leap: "leapyear = is_leap yr"
      unfolding yr_def leapyear_def
      by (subst is_leap_cycles) (use c100 c4 c1 regular in simp_all)
    have pre: "preceding = DAYS_BEFORE_MONTH ! nat ((r4 + 50) div 32)
        + (if (r4 + 50) div 32 > 2 \<and> is_leap yr then 1 else 0)"
      by (simp add: preceding_def mo_def leap)
    show ?thesis
    proof (cases "preceding > r4")
      case True
      have neq: "\<not> (n1 = 4 \<or> n100 = 4)" using regular by simp
      from unfold neq True
      have "ord2ymd k = (yr, mo - 1, r4 - (preceding - (DAYS_IN_MONTH ! nat (mo - 1)
                 + (if mo - 1 = 2 \<and> leapyear then 1 else 0))) + 1)"
        by (simp only: if_False if_True)
      with res have "(y, m, d) = (yr, mo - 1, r4 - (preceding - (DAYS_IN_MONTH ! nat (mo - 1)
                 + (if mo - 1 = 2 \<and> leapyear then 1 else 0))) + 1)"
        by (simp only:)
      then have res': "y = yr" "m = mo - 1"
        "d = r4 - (preceding - (DAYS_IN_MONTH ! nat (mo - 1)
                 + (if mo - 1 = 2 \<and> is_leap yr then 1 else 0))) + 1"
        unfolding leap prod.inject by blast+
      from month_estimate(1) [OF b4, of yr] True
      have "1 \<le> mo - 1 \<and> mo - 1 \<le> 12
           \<and> preceding - (DAYS_IN_MONTH ! nat (mo - 1) + (if mo - 1 = 2 \<and> is_leap yr then 1 else 0))
               = days_before_month yr (mo - 1)
           \<and> days_before_month yr (mo - 1) \<le> r4
           \<and> r4 < days_before_month yr (mo - 1) + days_in_month yr (mo - 1)"
        unfolding pre mo_def by simp
      then show ?thesis
        using dby k by (simp add: res' ymd2ord_def)
    next
      case False
      have neq: "\<not> (n1 = 4 \<or> n100 = 4)" using regular by simp
      from unfold neq False
      have "ord2ymd k = (yr, mo, r4 - preceding + 1)"
        by (simp only: if_False if_True)
      with res have "(y, m, d) = (yr, mo, r4 - preceding + 1)"
        by (simp only:)
      then have res': "y = yr" "m = mo" "d = r4 - preceding + 1"
        unfolding prod.inject by blast+
      from month_estimate(2) [OF b4, of yr] False
      have "1 \<le> mo \<and> mo \<le> 12 \<and> preceding = days_before_month yr mo
           \<and> r4 < days_before_month yr mo + days_in_month yr mo"
        unfolding pre mo_def by simp
      then show ?thesis
        using dby k False by (simp add: res' ymd2ord_def)
    qed
  qed
qed


lemma div_pred:
  fixes y c :: int
  assumes "0 < c"
  shows "y div c = (y - 1) div c + (if y mod c = 0 then 1 else 0)"
proof (cases "y mod c = 0")
  case True
  have "y - 1 = c * (y div c - 1) + (c - 1)"
    using True by (simp add: algebra_simps) (metis mult.commute mult_div_mod_eq add.right_neutral)
  then have "(y - 1) div c = y div c - 1"
    by (rule int_div_pos_eq) (use assms in simp_all)
  with True show ?thesis by simp
next
  case False
  have "0 \<le> y mod c" "y mod c < c" using assms by simp_all
  with False have r: "0 \<le> y mod c - 1" "y mod c - 1 < c" by simp_all
  have "y - 1 = c * (y div c) + (y mod c - 1)"
    by simp
  then have "(y - 1) div c = y div c"
    using r by (rule int_div_pos_eq)
  with False show ?thesis by simp
qed

lemma days_before_year_Suc:
  "days_before_year (y + 1) = days_before_year y + (if is_leap y then 366 else 365)"
proof -
  define a b c where "a = (y - 1) div 4" and "b = (y - 1) div 100" and "c = (y - 1) div 400"
  define p4 p100 p400 where "p4 = (y mod 4 = 0)" and "p100 = (y mod 100 = 0)"
    and "p400 = (y mod 400 = 0)"
  have d: "y div 4 = a + (if p4 then 1 else 0)"
    "y div 100 = b + (if p100 then 1 else 0)"
    "y div 400 = c + (if p400 then 1 else 0)"
    unfolding a_def b_def c_def p4_def p100_def p400_def by (rule div_pred, simp)+
  have i1: "p100" if "p400"
  proof -
    have "(100::int) dvd 400" by simp
    moreover from that have "400 dvd y" by (simp add: p400_def mod_eq_0_iff_dvd)
    ultimately have "100 dvd y" by (rule dvd_trans)
    then show ?thesis by (simp add: p100_def mod_eq_0_iff_dvd)
  qed
  have i2: "p4" if "p100"
  proof -
    have "(4::int) dvd 100" by simp
    moreover from that have "100 dvd y" by (simp add: p100_def mod_eq_0_iff_dvd)
    ultimately have "4 dvd y" by (rule dvd_trans)
    then show ?thesis by (simp add: p4_def mod_eq_0_iff_dvd)
  qed
  have l: "is_leap y = (p4 \<and> (\<not> p100 \<or> p400))"
    by (simp add: is_leap_def p4_def p100_def p400_def)
  have s: "days_before_year (y + 1) = y * 365 + y div 4 - y div 100 + y div 400"
    by (simp add: days_before_year_def)
  have t: "days_before_year y = (y - 1) * 365 + a - b + c"
    by (simp add: days_before_year_def Let_def a_def b_def c_def)
  show ?thesis
    unfolding s t d l using i1 i2 by (cases p4; cases p100; cases p400) simp_all
qed

lemma days_before_year_mono: "y \<le> y' \<Longrightarrow> days_before_year y \<le> days_before_year y'"
proof (induction y' rule: int_ge_induct)
  case base
  show ?case by simp
next
  case (step i)
  then show ?case by (simp add: days_before_year_Suc)
qed

lemma days_before_year_less: "y < y' \<Longrightarrow> days_before_year (y + 1) \<le> days_before_year y'"
  by (rule days_before_year_mono) simp

lemma days_before_year_1: "days_before_year 1 = 0"
  by (simp add: days_before_year_def)

lemma days_before_year_10000: "days_before_year 10000 = 3652059"
  by (simp add: days_before_year_def)

lemma days_before_month_bounds:
  assumes "1 \<le> m" "m \<le> 12"
  shows "0 \<le> days_before_month y m"
    and "days_before_month y m + days_in_month y m \<le> (if is_leap y then 366 else 365)"
    and "1 \<le> days_in_month y m"
proof -
  from assms have cases: "m = 1 \<or> m = 2 \<or> m = 3 \<or> m = 4 \<or> m = 5 \<or> m = 6 \<or> m = 7 \<or> m = 8
      \<or> m = 9 \<or> m = 10 \<or> m = 11 \<or> m = 12"
    by arith
  show "0 \<le> days_before_month y m"
    using cases by (elim disjE) (simp_all add: days_before_month_def DAYS_BEFORE_MONTH_def)
  show "days_before_month y m + days_in_month y m \<le> (if is_leap y then 366 else 365)"
    using cases
    by (elim disjE) (simp_all add: days_before_month_def days_in_month_def
        DAYS_BEFORE_MONTH_def DAYS_IN_MONTH_def)
  show "1 \<le> days_in_month y m"
    using cases by (elim disjE) (simp_all add: days_in_month_def DAYS_IN_MONTH_def)
qed

lemma days_before_month_step:
  assumes "1 \<le> m" "m < m'" "m' \<le> 12"
  shows "days_before_month y m + days_in_month y m \<le> days_before_month y m'"
proof -
  have nxt: "days_before_month y (mth + 1) = days_before_month y mth + days_in_month y mth"
    if "1 \<le> mth" "mth < 12" for mth
  proof -
    from that have "mth \<in> {1, 2, 3, 4, 5, 6, 7, 8, 9, 10, 11}"
      by simp arith
    then have "mth = 1 \<or> mth = 2 \<or> mth = 3 \<or> mth = 4 \<or> mth = 5 \<or> mth = 6 \<or> mth = 7
      \<or> mth = 8 \<or> mth = 9 \<or> mth = 10 \<or> mth = 11"
      by simp
    then show ?thesis
      by (elim disjE) (simp_all add: days_before_month_def days_in_month_def
        DAYS_BEFORE_MONTH_def DAYS_IN_MONTH_def)
  qed
  from assms(2,1,3) show ?thesis
  proof (induction m' rule: int_gr_induct)
    case base
    then show ?case by (simp add: nxt)
  next
    case (step i)
    then have "days_before_month y m + days_in_month y m \<le> days_before_month y i"
      by simp
    also have "\<dots> \<le> days_before_month y (i + 1)"
      using step days_before_month_bounds(3) [of i y] by (simp add: nxt)
    finally show ?case .
  qed
qed

lemma toordinal_fromordinal [simp]: "toordinal (fromordinal k) = k"
proof -
  obtain y m d where r: "ord2ymd k = (y, m, d)"
    by (cases "ord2ymd k") auto
  from ord2ymd_correct [OF r] show ?thesis
    by (simp add: toordinal_def fromordinal_def r)
qed

lemma fromordinal_fields:
  "1 \<le> date_month (fromordinal k) \<and> date_month (fromordinal k) \<le> 12
   \<and> 1 \<le> date_day (fromordinal k)
   \<and> date_day (fromordinal k) \<le> days_in_month (date_year (fromordinal k)) (date_month (fromordinal k))"
proof -
  obtain y m d where r: "ord2ymd k = (y, m, d)"
    by (cases "ord2ymd k") auto
  from ord2ymd_correct [OF r] show ?thesis
    by (simp add: fromordinal_def r)
qed

lemma ymd2ord_bounds:
  assumes "1 \<le> m" "m \<le> 12" "1 \<le> d" "d \<le> days_in_month y m"
  shows "days_before_year y < ymd2ord y m d" and "ymd2ord y m d \<le> days_before_year (y + 1)"
  using assms days_before_month_bounds [OF assms(1,2), of y]
  by (simp_all add: ymd2ord_def days_before_year_Suc split: if_splits)

lemma year_unique:
  assumes "days_before_year y < k" "k \<le> days_before_year (y + 1)"
    and "days_before_year y' < k" "k \<le> days_before_year (y' + 1)"
  shows "y = y'"
proof (rule ccontr)
  assume "y \<noteq> y'"
  then consider "y < y'" | "y' < y" by arith
  then show False
  proof cases
    case 1
    from days_before_year_less [OF 1] assms show False by simp
  next
    case 2
    from days_before_year_less [OF 2] assms show False by simp
  qed
qed

lemma fromordinal_year_bounds:
  "days_before_year (date_year (fromordinal k)) < k"
  "k \<le> days_before_year (date_year (fromordinal k) + 1)"
proof -
  let ?d = "fromordinal k"
  have "ymd2ord (date_year ?d) (date_month ?d) (date_day ?d) = k"
    using toordinal_fromordinal [of k] by (simp add: toordinal_def)
  with fromordinal_fields [of k]
    ymd2ord_bounds [of "date_month ?d" "date_day ?d" "date_year ?d"]
  show "days_before_year (date_year ?d) < k" "k \<le> days_before_year (date_year ?d + 1)"
    by simp_all
qed

lemma date_year_fromordinal:
  assumes "days_before_year y < k" "k \<le> days_before_year (y + 1)"
  shows "date_year (fromordinal k) = y"
  using year_unique [OF fromordinal_year_bounds assms] .

lemma valid_fromordinal:
  assumes "0 < k" "k \<le> MAXORDINAL"
  shows "valid_date (fromordinal k)"
proof -
  let ?y = "date_year (fromordinal k)"
  have "1 \<le> ?y"
  proof (rule ccontr)
    assume "\<not> 1 \<le> ?y"
    then have "?y + 1 \<le> 1" by simp
    then have "days_before_year (?y + 1) \<le> days_before_year 1"
      by (rule days_before_year_mono)
    with fromordinal_year_bounds(2) [of k] assms show False
      by (simp add: days_before_year_1)
  qed
  moreover have "?y \<le> 9999"
  proof (rule ccontr)
    assume "\<not> ?y \<le> 9999"
    then have "10000 \<le> ?y" by simp
    then have "days_before_year 10000 \<le> days_before_year ?y"
      by (rule days_before_year_mono)
    with fromordinal_year_bounds(1) [of k] assms show False
      by (simp add: days_before_year_10000 MAXORDINAL_def)
  qed
  ultimately show ?thesis
    using fromordinal_fields [of k] by (simp add: valid_date_def MINYEAR_def MAXYEAR_def)
qed

lemma toordinal_range:
  assumes "valid_date d"
  shows "0 < toordinal d" and "toordinal d \<le> MAXORDINAL"
proof -
  from assms have f: "1 \<le> date_month d" "date_month d \<le> 12" "1 \<le> date_day d"
    "date_day d \<le> days_in_month (date_year d) (date_month d)"
    and y: "1 \<le> date_year d" "date_year d + 1 \<le> 10000"
    by (simp_all add: valid_date_def MINYEAR_def MAXYEAR_def)
  from ymd2ord_bounds [OF f] have b: "days_before_year (date_year d) < toordinal d"
    "toordinal d \<le> days_before_year (date_year d + 1)"
    by (simp_all add: toordinal_def)
  from days_before_year_mono [OF y(1)] b(1) show "0 < toordinal d"
    by (simp add: days_before_year_1)
  from days_before_year_mono [OF y(2)] b(2) show "toordinal d \<le> MAXORDINAL"
    by (simp add: days_before_year_10000 MAXORDINAL_def)
qed

lemma toordinal_strict_mono:
  assumes "valid_date a" "valid_date b" "date_lt a b"
  shows "toordinal a < toordinal b"
proof -
  from assms(1) have fa: "1 \<le> date_month a" "date_month a \<le> 12" "1 \<le> date_day a"
    "date_day a \<le> days_in_month (date_year a) (date_month a)"
    by (simp_all add: valid_date_def)
  from assms(2) have fb: "1 \<le> date_month b" "date_month b \<le> 12" "1 \<le> date_day b"
    "date_day b \<le> days_in_month (date_year b) (date_month b)"
    by (simp_all add: valid_date_def)
  from assms(3) consider
      (year) "date_year a < date_year b"
    | (month) "date_year a = date_year b" "date_month a < date_month b"
    | (day) "date_year a = date_year b" "date_month a = date_month b" "date_day a < date_day b"
    by (auto simp: date_lt_def)
  then show ?thesis
  proof cases
    case year
    have "toordinal a \<le> days_before_year (date_year a + 1)"
      using ymd2ord_bounds(2) [OF fa] by (simp add: toordinal_def)
    also have "\<dots> \<le> days_before_year (date_year b)"
      using year by (rule days_before_year_less)
    also have "\<dots> < toordinal b"
      using ymd2ord_bounds(1) [OF fb] by (simp add: toordinal_def)
    finally show ?thesis .
  next
    case month
    from days_before_month_step [OF fa(1) month(2) fb(2), of "date_year a"] fa fb month
    show ?thesis
      by (simp add: toordinal_def ymd2ord_def)
  next
    case day
    then show ?thesis
      by (simp add: toordinal_def ymd2ord_def)
  qed
qed

lemma date_trichotomy: "date_lt a b \<or> a = b \<or> date_lt b a"
  by (cases a; cases b) (auto simp: date_lt_def)

lemma date_lt_iff:
  assumes "valid_date a" "valid_date b"
  shows "date_lt a b = (toordinal a < toordinal b)"
proof
  assume "date_lt a b"
  with assms show "toordinal a < toordinal b" by (rule toordinal_strict_mono)
next
  assume lt: "toordinal a < toordinal b"
  from date_trichotomy [of a b] show "date_lt a b"
  proof (elim disjE)
    assume "a = b"
    with lt show ?thesis by simp
  next
    assume "date_lt b a"
    with assms have "toordinal b < toordinal a" by (simp add: toordinal_strict_mono)
    with lt show ?thesis by simp
  qed
qed

lemma toordinal_inj:
  assumes "valid_date a" "valid_date b" "toordinal a = toordinal b"
  shows "a = b"
  using date_trichotomy [of a b] assms toordinal_strict_mono [of a b] toordinal_strict_mono [of b a]
  by auto

lemma date_le_iff:
  assumes "valid_date a" "valid_date b"
  shows "date_le a b = (toordinal a \<le> toordinal b)"
  using assms date_lt_iff [OF assms] toordinal_inj [OF assms]
  by (auto simp: date_le_def)

lemma fromordinal_toordinal:
  assumes "valid_date d"
  shows "fromordinal (toordinal d) = d"
proof -
  have "valid_date (fromordinal (toordinal d))"
    using toordinal_range [OF assms] by (rule valid_fromordinal)
  then show ?thesis
    using assms by (rule toordinal_inj) simp
qed

section \<open>Weekday arithmetic\<close>

lemma Weekday_value_range: "1 \<le> Weekday_value w \<and> Weekday_value w \<le> 7"
  by (cases w) simp_all

lemma Weekday_new_value [simp]: "Weekday_new (Weekday_value w) = Inr w"
  by (cases w) (simp_all add: Weekday_new_def)

lemma Weekday_new_range:
  assumes "1 \<le> v" and "v \<le> 7"
  shows "\<exists>w. Weekday_new v = Inr w \<and> Weekday_value w = v"
proof -
  from assms have "v = 1 \<or> v = 2 \<or> v = 3 \<or> v = 4 \<or> v = 5 \<or> v = 6 \<or> v = 7"
    by arith
  then show ?thesis
    by (auto simp: Weekday_new_def)
qed

lemma Weekday_add_value:
  "\<exists>w. Weekday_add self n = Inr w \<and> Weekday_value w = (Weekday_value self + n - 1) mod 7 + 1"
  unfolding Weekday_add_def
  by (rule Weekday_new_range) simp_all

section \<open>Dates and their weekdays\<close>

lemma bind_err_Inr [simp]: "bind_err (Inr x) f = f x"
  by (simp add: bind_err_def)

lemma bind_err_Inl [simp]: "bind_err (Inl e) f = Inl e"
  by (simp add: bind_err_def)

lemma timedelta_new_days:
  "timedelta_new n 0 0 = (if \<bar>n\<bar> > 999999999 then Inl OverflowError else Inr (Timedelta n 0 0))"
  by (simp add: timedelta_new_def)

lemma date_add_eq:
  "date_add d t =
     (if 0 < toordinal d + td_days t \<and> toordinal d + td_days t \<le> MAXORDINAL
      then Inr (fromordinal (toordinal d + td_days t)) else Inl OverflowError)"
  by (simp add: date_add_def Let_def)

lemma isoweekday_range: "1 \<le> isoweekday d" "isoweekday d \<le> 7"
proof -
  define r where "r = toordinal d mod 7"
  have "0 \<le> r" "r < 7" by (simp_all add: r_def)
  then show "1 \<le> isoweekday d" "isoweekday d \<le> 7"
    by (simp_all add: isoweekday_def Let_def r_def [symmetric])
qed

lemma isoweekday_mod: "isoweekday d mod 7 = toordinal d mod 7"
  by (simp add: isoweekday_def Let_def)

lemma isoweekday_eqI:
  assumes "1 \<le> v" "v \<le> 7" "toordinal d mod 7 = v mod 7"
  shows "isoweekday d = v"
proof (cases "v = 7")
  case True
  with assms(3) show ?thesis by (simp add: isoweekday_def)
next
  case False
  with assms(1,2) have "v mod 7 = v" "v \<noteq> 0" by simp_all
  with assms(3) show ?thesis by (simp add: isoweekday_def)
qed

lemma for_date_value:
  "\<exists>w. for_date d = Inr w \<and> Weekday_value w = isoweekday d"
  unfolding for_date_def using isoweekday_range by (rule Weekday_new_range)

lemma Weekday_value_inj: "Weekday_value a = Weekday_value b \<Longrightarrow> a = b"
  by (cases a; cases b) simp_all

lemma for_date_iff:
  "for_date d = Inr w \<longleftrightarrow> isoweekday d = Weekday_value w"
  using for_date_value [of d] Weekday_value_inj by auto

lemma toordinal_jan: "toordinal (Date y 1 dy) = days_before_year y + dy"
  by (simp add: toordinal_def ymd2ord_def days_before_month_def DAYS_BEFORE_MONTH_def)

lemma valid_jan:
  assumes "MINYEAR \<le> y" "y \<le> MAXYEAR" "1 \<le> dy" "dy \<le> 7"
  shows "valid_date (Date y 1 dy)" and "date_new y 1 dy = Inr (Date y 1 dy)"
  using assms by (simp_all add: valid_date_def date_new_def days_in_month_def DAYS_IN_MONTH_def)

lemma first_of_year_eq:
  fixes y :: int and w :: Weekday
  assumes "MINYEAR \<le> y" "y \<le> MAXYEAR"
  defines "dy \<equiv> 1 + (Weekday_value w - isoweekday (Date y 1 1)) mod 7"
  shows "first_of_year w y = Inr (Date y 1 dy)" and "1 \<le> dy" and "dy \<le> 7"
    and "isoweekday (Date y 1 dy) = Weekday_value w"
proof -
  show dy: "1 \<le> dy" "dy \<le> 7"
    unfolding dy_def by simp_all
  have "date_new y 1 1 = Inr (Date y 1 1)"
    using assms(1,2) by (simp add: valid_jan)
  then show "first_of_year w y = Inr (Date y 1 dy)"
    using valid_jan(2) [OF assms(1,2) dy] by (simp add: first_of_year_def Let_def dy_def)
  have "toordinal (Date y 1 dy) mod 7
      = (toordinal (Date y 1 1) + (Weekday_value w - isoweekday (Date y 1 1)) mod 7) mod 7"
    by (simp add: toordinal_jan dy_def add.assoc)
  also have "\<dots> = (toordinal (Date y 1 1) mod 7 + (Weekday_value w - isoweekday (Date y 1 1) mod 7) mod 7) mod 7"
    by (simp add: mod_simps)
  also have "\<dots> = Weekday_value w mod 7"
    unfolding isoweekday_mod by (simp add: mod_simps)
  finally show "isoweekday (Date y 1 dy) = Weekday_value w"
    using Weekday_value_range [of w] by (intro isoweekday_eqI) simp_all
qed

section \<open>Weeks by the ordinal of their start\<close>

lemma date_year_le_iff: "date_year (fromordinal k) \<le> y \<longleftrightarrow> k \<le> days_before_year (y + 1)"
proof
  assume "date_year (fromordinal k) \<le> y"
  then have "days_before_year (date_year (fromordinal k) + 1) \<le> days_before_year (y + 1)"
    by (intro days_before_year_mono) simp
  with fromordinal_year_bounds(2) [of k] show "k \<le> days_before_year (y + 1)"
    by simp
next
  assume k: "k \<le> days_before_year (y + 1)"
  show "date_year (fromordinal k) \<le> y"
  proof (rule ccontr)
    assume "\<not> date_year (fromordinal k) \<le> y"
    then have "y < date_year (fromordinal k)" by simp
    from days_before_year_less [OF this] fromordinal_year_bounds(1) [of k] k
    show False by simp
  qed
qed

lemma Weekday_add_mod:
  assumes "Weekday_add fw n = Inr md"
  shows "Weekday_value md mod 7 = (Weekday_value fw + n) mod 7"
proof -
  from Weekday_add_value [of fw n] assms
  have "Weekday_value md = (Weekday_value fw + n - 1) mod 7 + 1"
    by auto
  then have "Weekday_value md mod 7 = ((Weekday_value fw + n - 1) mod 7 + 1) mod 7"
    by simp
  also have "\<dots> = (Weekday_value fw + n - 1 + 1) mod 7"
    by (simp only: mod_add_left_eq)
  finally show ?thesis by simp
qed

lemma first_of_year_ordinal:
  assumes "MINYEAR \<le> y" "y \<le> MAXYEAR"
  shows "\<exists>dy. first_of_year w y = Inr (Date y 1 dy) \<and> 1 \<le> dy \<and> dy \<le> 7
          \<and> (days_before_year y + dy) mod 7 = Weekday_value w mod 7"
proof -
  let ?dy = "1 + (Weekday_value w - isoweekday (Date y 1 1)) mod 7"
  from first_of_year_eq [OF assms, of w]
  have "first_of_year w y = Inr (Date y 1 ?dy)" "1 \<le> ?dy" "?dy \<le> 7"
    "isoweekday (Date y 1 ?dy) = Weekday_value w"
    by simp_all
  moreover from this(4) have "(days_before_year y + ?dy) mod 7 = Weekday_value w mod 7"
    using isoweekday_mod [of "Date y 1 ?dy"] by (simp only: toordinal_jan)
  ultimately show ?thesis by blast
qed

lemma first_of_year_unique_day:
  fixes a b D :: int
  assumes "1 \<le> a" "a \<le> 7" "1 \<le> b" "b \<le> 7" "(D + a) mod 7 = v mod 7" "(D + b) mod 7 = v mod 7"
  shows "a = b"
proof -
  from assms(5,6) have "(D + a) mod 7 = (D + b) mod 7" by simp
  then have "7 dvd (D + a) - (D + b)" by (simp only: mod_eq_dvd_iff)
  then have d: "7 dvd a - b" by simp
  show ?thesis
  proof (rule ccontr)
    assume "a \<noteq> b"
    then consider "0 < a - b" | "0 < b - a" by arith
    then show False
    proof cases
      case 1
      with assms have "a - b < 7" by simp
      with 1 d show False by (simp add: zdvd_not_zless)
    next
      case 2
      with assms have "b - a < 7" by simp
      moreover from d have "7 dvd b - a" by (simp add: dvd_diff_commute)
      ultimately show False using 2 by (simp add: zdvd_not_zless)
    qed
  qed
qed

text \<open>The week that starts on the date of ordinal \<open>s\<close>.\<close>

lemma first_weekday_fromordinal:
  "first_weekday (Week (fromordinal s)) = Inr fw \<longleftrightarrow> s mod 7 = Weekday_value fw mod 7"
proof -
  have "isoweekday (fromordinal s) = Weekday_value fw \<longleftrightarrow> s mod 7 = Weekday_value fw mod 7"
  proof
    assume "isoweekday (fromordinal s) = Weekday_value fw"
    then show "s mod 7 = Weekday_value fw mod 7"
      using isoweekday_mod [of "fromordinal s"] by simp
  next
    assume "s mod 7 = Weekday_value fw mod 7"
    then show "isoweekday (fromordinal s) = Weekday_value fw"
      using Weekday_value_range [of fw] by (intro isoweekday_eqI) simp_all
  qed
  then show ?thesis
    by (simp add: first_weekday_def for_date_iff)
qed

lemma Week_year_fromordinal:
  assumes "0 < s"
  shows "Week_year (Week (fromordinal s)) =
     (if s + 3 \<le> MAXORDINAL then Inr (date_year (fromordinal (s + 3))) else Inl OverflowError)"
  using assms by (simp add: Week_year_def timedelta_new_days date_add_eq)

lemma Week_add_fromordinal:
  "Week_add (Week (fromordinal s)) (DurArg SEVEN_DAYS) =
     (if 0 < s + 7 \<and> s + 7 \<le> MAXORDINAL then Inr (Week (fromordinal (s + 7))) else Inl OverflowError)"
  by (simp add: Week_add_def SEVEN_DAYS_def date_add_eq)

lemma with_number_eq:
  assumes md: "Weekday_add fw 3 = Inr md" and fm: "first_of_year md y = Inr fm"
    and y: "MINYEAR \<le> y" "y \<le> MAXYEAR"
  shows "with_number y n fw =
     (if 0 < toordinal fm + 7 * (n - 1) - 3 \<and> toordinal fm + 7 * (n - 1) - 3 \<le> MAXORDINAL
      then Inr (Week (fromordinal (toordinal fm + 7 * (n - 1) - 3))) else Inl OverflowError)"
proof -
  from first_of_year_ordinal [OF y, of md] fm obtain dy where
    dy: "fm = Date y 1 dy" "1 \<le> dy" "dy \<le> 7"
    by auto
  have v: "valid_date fm" unfolding dy(1) using y dy(2,3) by (rule valid_jan)
  from toordinal_range [OF v] have r: "0 < toordinal fm" "toordinal fm \<le> MAXORDINAL" .
  show ?thesis
  proof (cases "\<bar>7 * (n - 1) - 3\<bar> > 999999999")
    case True
    with r have "\<not> (0 < toordinal fm + 7 * (n - 1) - 3 \<and> toordinal fm + 7 * (n - 1) - 3 \<le> MAXORDINAL)"
      unfolding MAXORDINAL_def by linarith
    with True show ?thesis
      by (simp add: with_number_def md fm timedelta_new_days)
  next
    case False
    then show ?thesis
      by (simp add: with_number_def md fm timedelta_new_days date_add_eq add_diff_eq)
  qed
qed

lemma Week_number_fromordinal:
  assumes s: "0 < s" "s + 3 \<le> MAXORDINAL"
  shows "\<exists>dy. 1 \<le> dy \<and> dy \<le> 7
      \<and> (days_before_year (date_year (fromordinal (s + 3))) + dy) mod 7 = (s + 3) mod 7
      \<and> Week_number (Week (fromordinal s))
          = Inr (1 + (s + 3 - (days_before_year (date_year (fromordinal (s + 3))) + dy)) div 7)"
proof -
  let ?w = "Week (fromordinal s)"
  let ?yr = "date_year (fromordinal (s + 3))"
  obtain fw where fw: "first_weekday ?w = Inr fw" and fwv: "Weekday_value fw = isoweekday (fromordinal s)"
    using for_date_value [of "fromordinal s"] by (auto simp: first_weekday_def)
  obtain md where md: "Weekday_add fw 3 = Inr md"
    using Weekday_add_value [of fw 3] by blast
  have "valid_date (fromordinal (s + 3))"
    using s by (intro valid_fromordinal) simp_all
  then have yr: "MINYEAR \<le> ?yr" "?yr \<le> MAXYEAR"
    by (simp_all add: valid_date_def)
  from first_of_year_ordinal [OF yr, of md] obtain dy where
    dy: "first_of_year md ?yr = Inr (Date ?yr 1 dy)" "1 \<le> dy" "dy \<le> 7"
      "(days_before_year ?yr + dy) mod 7 = Weekday_value md mod 7"
    by blast
  have "Weekday_value md mod 7 = (isoweekday (fromordinal s) + 3) mod 7"
    using Weekday_add_mod [OF md] by (simp add: fwv)
  also have "\<dots> = (isoweekday (fromordinal s) mod 7 + 3) mod 7"
    by (simp only: mod_add_left_eq)
  also have "\<dots> = (s + 3) mod 7"
    by (simp add: isoweekday_mod mod_add_left_eq)
  finally have m: "(days_before_year ?yr + dy) mod 7 = (s + 3) mod 7"
    using dy(4) by simp
  have yb: "days_before_year ?yr < s + 3" "0 \<le> days_before_year ?yr"
    using fromordinal_year_bounds(1) [of "s + 3"] days_before_year_mono [of 1 ?yr] yr(1)
    by (simp_all add: days_before_year_1 MINYEAR_def)
  have small: "\<not> \<bar>s + 3 - (days_before_year ?yr + dy)\<bar> > 999999999"
    using s yb dy(2,3) unfolding MAXORDINAL_def by linarith
  have "Week_number ?w = Inr (1 + (s + 3 - (days_before_year ?yr + dy)) div 7)"
    using s small
    by (simp add: Week_number_def timedelta_new_days date_add_eq fw md Week_year_fromordinal
        dy(1) date_diff_def toordinal_jan)
  with dy(2,3) m show ?thesis by blast
qed

lemma days_before_year_ge:
  assumes "2 \<le> y"
  shows "365 \<le> days_before_year y"
proof -
  have "days_before_year 2 \<le> days_before_year y"
    using assms by (rule days_before_year_mono)
  then show ?thesis by (simp add: days_before_year_def)
qed

lemma days_before_year_le:
  assumes "y \<le> MAXYEAR"
  shows "days_before_year (y + 1) \<le> MAXORDINAL"
proof -
  have "days_before_year (y + 1) \<le> days_before_year 10000"
    using assms by (intro days_before_year_mono) (simp add: MAXYEAR_def)
  then show ?thesis by (simp add: days_before_year_10000 MAXORDINAL_def)
qed

lemma days_before_year_step_le: "days_before_year (y + 1) \<le> days_before_year y + 366"
  and days_before_year_step_ge: "days_before_year y + 365 \<le> days_before_year (y + 1)"
  by (simp_all add: days_before_year_Suc)

lemma date_add_valid:
  assumes "date_add d t = Inr d'"
  shows "valid_date d'" and "toordinal d' = toordinal d + td_days t"
    and "0 < toordinal d + td_days t" and "toordinal d + td_days t \<le> MAXORDINAL"
proof -
  from assms have r: "0 < toordinal d + td_days t" "toordinal d + td_days t \<le> MAXORDINAL"
    and d': "d' = fromordinal (toordinal d + td_days t)"
    by (simp_all add: date_add_eq split: if_splits)
  show "valid_date d'" unfolding d' using r by (rule valid_fromordinal)
  show "toordinal d' = toordinal d + td_days t" unfolding d' by simp
  show "0 < toordinal d + td_days t" "toordinal d + td_days t \<le> MAXORDINAL" by fact+
qed

lemma date_lt_irrefl: "\<not> date_lt d d"
  by (simp add: date_lt_def)

lemma upto_0_6: "[0..6] = [0, 1, 2, 3, 4, 5, 6::int]"
  by code_simp

lemma valid_dates_between:
  assumes "0 < a" "b \<le> MAXORDINAL + 1"
  shows "{d. valid_date d \<and> a \<le> toordinal d \<and> toordinal d < b} = fromordinal ` {a..<b}"
proof (intro set_eqI iffI)
  fix d assume "d \<in> {d. valid_date d \<and> a \<le> toordinal d \<and> toordinal d < b}"
  then have "valid_date d" "toordinal d \<in> {a..<b}" by simp_all
  moreover from this(1) have "d = fromordinal (toordinal d)"
    by (simp add: fromordinal_toordinal)
  ultimately show "d \<in> fromordinal ` {a..<b}" by blast
next
  fix d assume "d \<in> fromordinal ` {a..<b}"
  then obtain k where k: "d = fromordinal k" "a \<le> k" "k < b" by auto
  with assms have "valid_date d" by (simp add: valid_fromordinal)
  with k show "d \<in> {d. valid_date d \<and> a \<le> toordinal d \<and> toordinal d < b}" by simp
qed

lemma date_lt_fromordinal:
  assumes "0 < a" "a \<le> MAXORDINAL" "0 < b" "b \<le> MAXORDINAL"
  shows "date_lt (fromordinal a) (fromordinal b) = (a < b)"
  using assms by (simp add: date_lt_iff valid_fromordinal)

lemma inj_on_fromordinal: "inj_on fromordinal A"
  by (rule inj_on_inverseI [where g = toordinal]) simp

lemma Week_iter_eq:
  assumes o: "0 < toordinal (start w)" "toordinal (start w) + 6 \<le> MAXORDINAL"
  shows "Week_iter w = (map (\<lambda>i. fromordinal (toordinal (start w) + i)) [0, 1, 2, 3, 4, 5, 6], None)"
  using o by (simp add: Week_iter_def Week_len_def upto_0_6 timedelta_new_days date_add_eq)

lemma with_date_eq:
  "with_date d fw =
     (if 0 < toordinal d - (isoweekday d - Weekday_value fw) mod 7
         \<and> toordinal d - (isoweekday d - Weekday_value fw) mod 7 \<le> MAXORDINAL
      then Inr (Week (fromordinal (toordinal d - (isoweekday d - Weekday_value fw) mod 7)))
      else Inl OverflowError)"
proof -
  define delta where "delta = (isoweekday d - Weekday_value fw) mod 7"
  have b: "0 \<le> delta" "delta < 7" by (simp_all add: delta_def)
  then have t: "timedelta_new delta 0 0 = Inr (Timedelta delta 0 0)"
    "timedelta_new (- delta) 0 0 = Inr (Timedelta (- delta) 0 0)"
    by (simp_all add: timedelta_new_days)
  have "with_date d fw =
     (if 0 < toordinal d - delta \<and> toordinal d - delta \<le> MAXORDINAL
      then Inr (Week (fromordinal (toordinal d - delta))) else Inl OverflowError)"
    unfolding with_date_def delta_def [symmetric]
    by (simp add: t date_sub_def date_add_eq)
  then show ?thesis
    by (simp only: delta_def)
qed

lemma with_number_cases:
  assumes y: "MINYEAR \<le> y" "y \<le> MAXYEAR"
  obtains md dy where "Weekday_add fw 3 = Inr md" "first_of_year md y = Inr (Date y 1 dy)"
    "1 \<le> dy" "dy \<le> 7"
    "(days_before_year y + dy) mod 7 = (Weekday_value fw + 3) mod 7"
    "with_number y n fw =
       (if 0 < days_before_year y + dy + 7 * (n - 1) - 3
           \<and> days_before_year y + dy + 7 * (n - 1) - 3 \<le> MAXORDINAL
        then Inr (Week (fromordinal (days_before_year y + dy + 7 * (n - 1) - 3)))
        else Inl OverflowError)"
proof -
  obtain md where md: "Weekday_add fw 3 = Inr md"
    using Weekday_add_value [of fw 3] by blast
  from first_of_year_ordinal [OF y, of md] obtain dy where
    dy: "first_of_year md y = Inr (Date y 1 dy)" "1 \<le> dy" "dy \<le> 7"
      "(days_before_year y + dy) mod 7 = Weekday_value md mod 7"
    by blast
  have "(days_before_year y + dy) mod 7 = (Weekday_value fw + 3) mod 7"
    using dy(4) Weekday_add_mod [OF md] by simp
  moreover have "with_number y n fw =
       (if 0 < days_before_year y + dy + 7 * (n - 1) - 3
           \<and> days_before_year y + dy + 7 * (n - 1) - 3 \<le> MAXORDINAL
        then Inr (Week (fromordinal (days_before_year y + dy + 7 * (n - 1) - 3)))
        else Inl OverflowError)"
    using with_number_eq [OF md dy(1) y, of n] by (simp only: toordinal_jan)
  ultimately show ?thesis
    using md dy(1,2,3) that by blast
qed

section \<open>The weeks of a year\<close>

lemma Week_add_seven_days:
  assumes "Week_add w (DurArg SEVEN_DAYS) = Inr w'"
  shows "toordinal (start w') = toordinal (start w) + 7"
    and "toordinal (start w) + 7 \<le> MAXORDINAL"
  using assms
  by (simp_all add: Week_add_def SEVEN_DAYS_def date_add_eq split: if_splits) auto

text \<open>
  The loop of \<open>weeks_of_year\<close>: while the year of the week is at most the given year,
  yield the week and go on with the week 7 days later.
\<close>

function weeks_of_year_loop :: "Week \<Rightarrow> int \<Rightarrow> Week generated" where
  "weeks_of_year_loop w yr =
     (case Week_year w of
        Inl e \<Rightarrow> ([], Some e)
      | Inr wy \<Rightarrow>
          if wy \<le> yr
          then (case Week_add w (DurArg SEVEN_DAYS) of
                  Inl e \<Rightarrow> ([w], Some e)
                | Inr w' \<Rightarrow> (case weeks_of_year_loop w' yr of (ws, r) \<Rightarrow> (w # ws, r)))
          else ([], None))"
  by pat_completeness auto
termination
proof (relation "measure (\<lambda>(w, yr). nat (MAXORDINAL - toordinal (start w)))")
  show "wf (measure (\<lambda>(w, yr). nat (MAXORDINAL - toordinal (start w))))"
    by simp
next
  fix w :: Week and yr wy :: int and w' :: Week
  assume "Week_add w (DurArg SEVEN_DAYS) = Inr w'"
  from Week_add_seven_days [OF this]
  show "((w', yr), (w, yr)) \<in> measure (\<lambda>(w, yr). nat (MAXORDINAL - toordinal (start w)))"
    by simp
qed

declare weeks_of_year_loop.simps [simp del]

definition weeks_of_year :: "int \<Rightarrow> Weekday \<Rightarrow> Week generated" where
  "weeks_of_year yr first_wd =
     (case with_number yr 1 first_wd of
        Inl e \<Rightarrow> ([], Some e)
      | Inr w \<Rightarrow> weeks_of_year_loop w yr)"


lemma map_upt_Suc_Cons: "map f [0..<Suc k] = f 0 # map (\<lambda>i. f (Suc i)) [0..<k]"
  by (simp only: upt_conv_Cons [of 0 "Suc k"] zero_less_Suc if_True list.map map_Suc_upt [symmetric] map_map comp_def)

lemma weeks_of_year_loop_eq:
  fixes s yr :: int
  defines "D \<equiv> days_before_year (yr + 1)"
  assumes s: "0 < s" and D: "D \<le> MAXORDINAL"
  shows "weeks_of_year_loop (Week (fromordinal s)) yr =
     (map (\<lambda>i. Week (fromordinal (s + 7 * int i))) [0..<nat ((D - s + 4) div 7)],
      if s + 7 * int (nat ((D - s + 4) div 7)) + 3 \<le> MAXORDINAL then None else Some OverflowError)"
  using s
proof (induction k \<equiv> "nat ((D - s + 4) div 7)" arbitrary: s)
  case 0
  then have "(D - s + 4) div 7 \<le> 0" by simp
  then have gt: "D < s + 3" by arith
  then have "\<not> date_year (fromordinal (s + 3)) \<le> yr"
    by (simp add: date_year_le_iff D_def)
  with 0 show ?case
    by (subst weeks_of_year_loop.simps) (simp add: Week_year_fromordinal)
next
  case (Suc k)
  then have q: "(D - s + 4) div 7 = int k + 1" by simp
  then have le: "s + 3 \<le> D" by arith
  then have yr: "date_year (fromordinal (s + 3)) \<le> yr"
    by (simp add: date_year_le_iff D_def)
  from le D have s3: "s + 3 \<le> MAXORDINAL" by simp
  show ?case
  proof (cases "s + 7 \<le> MAXORDINAL")
    case False
    with D have "D - s + 4 < 14" by simp
    with q have "k = 0" by arith
    with False Suc.prems Suc.hyps(2) [symmetric] s3 yr show ?thesis
      by (subst weeks_of_year_loop.simps)
        (simp add: Week_year_fromordinal Week_add_fromordinal)
  next
    case True
    have k: "k = nat ((D - (s + 7) + 4) div 7)"
      using q by arith
    have pos: "0 < s + 7" using Suc.prems by simp
    have IH: "weeks_of_year_loop (Week (fromordinal (s + 7))) yr =
       (map (\<lambda>i. Week (fromordinal (s + 7 + 7 * int i))) [0..<k],
        if s + 7 + 7 * int k + 3 \<le> MAXORDINAL then None else Some OverflowError)"
      using Suc.hyps(1) [OF k pos] k by simp
    have l: "map (\<lambda>i. Week (fromordinal (s + 7 * int i))) [0..<Suc k]
        = Week (fromordinal s) # map (\<lambda>i. Week (fromordinal (s + 7 + 7 * int i))) [0..<k]"
      by (simp only: map_upt_Suc_Cons) (simp add: algebra_simps)
    have "weeks_of_year_loop (Week (fromordinal s)) yr =
       (Week (fromordinal s) # map (\<lambda>i. Week (fromordinal (s + 7 + 7 * int i))) [0..<k],
        if s + 7 + 7 * int k + 3 \<le> MAXORDINAL then None else Some OverflowError)"
      using True Suc.prems s3 yr
      by (subst weeks_of_year_loop.simps)
        (simp add: Week_year_fromordinal Week_add_fromordinal IH)
    then show ?thesis
      unfolding Suc.hyps(2) [symmetric] l by (simp add: algebra_simps)
  qed
qed

lemma weeks_of_year_eq:
  assumes y: "MINYEAR \<le> y" "y \<le> MAXYEAR"
    and dy: "first_of_year md y = Inr (Date y 1 dy)" "Weekday_add fw 3 = Inr md"
    and s: "0 < days_before_year y + dy - 3"
  shows "weeks_of_year y fw =
     (map (\<lambda>i. Week (fromordinal (days_before_year y + dy - 3 + 7 * int i)))
        [0..<nat ((days_before_year (y + 1) - days_before_year y - dy + 7) div 7)],
      if days_before_year y + dy
          + 7 * int (nat ((days_before_year (y + 1) - days_before_year y - dy + 7) div 7))
          \<le> MAXORDINAL
      then None else Some OverflowError)"
proof -
  let ?s = "days_before_year y + dy - 3"
  from first_of_year_ordinal [OF y, of md] dy(1) have d7: "1 \<le> dy" "dy \<le> 7"
    by auto
  have D: "days_before_year (y + 1) \<le> MAXORDINAL"
    using y(2) by (rule days_before_year_le)
  have "?s \<le> MAXORDINAL"
    using D d7 days_before_year_step_ge [of y] by simp
  with s have w1: "with_number y 1 fw = Inr (Week (fromordinal ?s))"
    using with_number_eq [OF dy(2,1) y, of 1] by (simp add: toordinal_jan)
  have "weeks_of_year y fw = weeks_of_year_loop (Week (fromordinal ?s)) y"
    by (simp add: weeks_of_year_def w1)
  also note weeks_of_year_loop_eq [OF s D]
  finally show ?thesis
    by (simp add: algebra_simps)
qed


lemma weeks_of_year_props:
  assumes y: "MINYEAR \<le> y" "y < MAXYEAR" and w1: "with_number y 1 fw = Inr w1"
  shows "\<exists>ws. weeks_of_year y fw = (ws, None)
      \<and> (length ws = 52 \<or> length ws = 53)
      \<and> ws ! 0 = w1
      \<and> (\<forall>i. Suc i < length ws \<longrightarrow>
            Week_add (ws ! i) (DurArg SEVEN_DAYS) = Inr (ws ! Suc i)
            \<and> toordinal (start (ws ! Suc i)) = toordinal (start (ws ! i)) + 7)
      \<and> (\<forall>i < length ws. Week_year (ws ! i) = Inr y)
      \<and> (\<exists>w'. Week_add (last ws) (DurArg SEVEN_DAYS) = Inr w' \<and> Week_year w' = Inr (y + 1))"
proof -
  from y have y': "y \<le> MAXYEAR" by simp
  from with_number_cases [OF y(1) y', of fw 1] obtain md dy where
    md: "Weekday_add fw 3 = Inr md" and fm: "first_of_year md y = Inr (Date y 1 dy)"
    and dy: "1 \<le> dy" "dy \<le> 7"
    and eq: "with_number y 1 fw =
       (if 0 < days_before_year y + dy + 7 * (1 - 1) - 3
           \<and> days_before_year y + dy + 7 * (1 - 1) - 3 \<le> MAXORDINAL
        then Inr (Week (fromordinal (days_before_year y + dy + 7 * (1 - 1) - 3)))
        else Inl OverflowError)"
    by metis
  define B where "B = days_before_year y"
  define L where "L = days_before_year (y + 1) - B"
  define s where "s = B + dy - 3"
  define q where "q = (L - dy + 7) div 7"
  define ws where "ws = map (\<lambda>i. Week (fromordinal (s + 7 * int i))) [0..<nat q]"
  from w1 eq have s: "0 < s" and w1': "w1 = Week (fromordinal s)"
    by (simp_all add: s_def B_def split: if_splits)
  have L: "365 \<le> L" "L \<le> 366"
    using days_before_year_step_ge [of y] days_before_year_step_le [of y]
    by (simp_all add: L_def B_def)
  have q1: "7 * q \<le> L - dy + 7" and q2: "L - dy + 7 < 7 * q + 7"
    unfolding q_def by arith+
  have q: "q = 52 \<or> q = 53"
    using q1 q2 L dy by arith
  then have q0: "0 \<le> q" by auto
  have top: "days_before_year (y + 1) + 365 \<le> MAXORDINAL"
  proof -
    have "days_before_year (y + 1) + 365 \<le> days_before_year (y + 1 + 1)"
      by (rule days_before_year_step_ge)
    also have "\<dots> \<le> MAXORDINAL"
      using y(2) by (intro days_before_year_le) simp
    finally show ?thesis .
  qed
  have D: "days_before_year (y + 1) = B + L"
    by (simp add: L_def)
  have res: "weeks_of_year y fw = (ws, None)"
  proof -
    have "B + dy + 7 * int (nat q) \<le> MAXORDINAL"
      using q0 q1 top D by simp
    then show ?thesis
      using weeks_of_year_eq [OF y(1) y' fm md] s
      by (simp add: ws_def s_def q_def L_def B_def)
  qed
  have len: "length ws = nat q"
    by (simp add: ws_def)
  have nth: "ws ! i = Week (fromordinal (s + 7 * int i))" if "i < nat q" for i
    using that by (simp add: ws_def)
  have len': "length ws = 52 \<or> length ws = 53"
    using q by (auto simp: len)
  have first: "ws ! 0 = w1"
    using q by (subst nth) (auto simp: w1')
  have step: "Week_add (ws ! i) (DurArg SEVEN_DAYS) = Inr (ws ! Suc i)
            \<and> toordinal (start (ws ! Suc i)) = toordinal (start (ws ! i)) + 7"
    if "Suc i < length ws" for i
  proof -
    from that have i: "i < nat q" "Suc i < nat q" by (simp_all add: len)
    then have "7 * int i + 7 < 7 * q" by simp
    with q1 D top dy have "s + 7 * int i + 7 \<le> MAXORDINAL"
      by (simp add: s_def)
    with s show ?thesis
      by (simp add: nth i Week_add_fromordinal algebra_simps)
  qed
  have in_year: "Week_year (ws ! i) = Inr y" if "i < length ws" for i
  proof -
    from that have i: "i < nat q" by (simp add: len)
    then have "7 * int i + 7 \<le> 7 * q" by simp
    with q1 have b: "B < s + 7 * int i + 3" "s + 7 * int i + 3 \<le> B + L"
      using dy by (simp_all add: s_def)
    then have "days_before_year y < s + 7 * int i + 3"
      "s + 7 * int i + 3 \<le> days_before_year (y + 1)"
      by (simp_all add: L_def B_def)
    then have "date_year (fromordinal (s + 7 * int i + 3)) = y"
      by (rule date_year_fromordinal)
    moreover have "s + 7 * int i + 3 \<le> MAXORDINAL"
      using b(2) D top by simp
    moreover have "0 < s + 7 * int i"
      using s by simp
    ultimately show ?thesis
      by (simp add: nth i Week_year_fromordinal)
  qed
  have after: "\<exists>w'. Week_add (last ws) (DurArg SEVEN_DAYS) = Inr w' \<and> Week_year w' = Inr (y + 1)"
  proof -
    from q len have ne: "ws \<noteq> []" and i: "nat q - 1 < nat q"
      by auto
    from ne have lst: "last ws = ws ! (nat q - 1)"
      by (simp add: last_conv_nth len)
    have e: "s + 7 * int (nat q - 1) + 7 = s + 7 * q"
      using q by auto
    have b: "B + L < s + 7 * q + 3" "s + 7 * q + 3 \<le> B + L + 7"
      using q1 q2 by (simp_all add: s_def)
    have r: "0 < s + 7 * q" "s + 7 * q \<le> MAXORDINAL" "s + 7 * q + 3 \<le> MAXORDINAL"
      using s q0 b(2) D top by simp_all
    have add: "Week_add (last ws) (DurArg SEVEN_DAYS) = Inr (Week (fromordinal (s + 7 * q)))"
      unfolding lst nth [OF i] Week_add_fromordinal e using r by simp
    have "days_before_year (y + 1) < s + 7 * q + 3"
      "s + 7 * q + 3 \<le> days_before_year (y + 1 + 1)"
      using b D days_before_year_step_ge [of "y + 1"] by simp_all
    then have "date_year (fromordinal (s + 7 * q + 3)) = y + 1"
      by (rule date_year_fromordinal)
    then have "Week_year (Week (fromordinal (s + 7 * q))) = Inr (y + 1)"
      using r by (simp add: Week_year_fromordinal)
    with add show ?thesis by blast
  qed
  show ?thesis
    by (intro exI [of _ ws] conjI allI impI)
      (rule res len' first in_year after | erule step [THEN conjunct1] step [THEN conjunct2] in_year | assumption)+
qed

lemma with_number_first_exists:
  assumes y: "2 \<le> y" "y \<le> MAXYEAR"
  shows "\<exists>w1. with_number y 1 fw = Inr w1"
proof -
  from y have y1: "MINYEAR \<le> y" by (simp add: MINYEAR_def)
  from with_number_cases [OF y1 y(2), of fw 1] obtain md dy where
    dy: "1 \<le> dy" "dy \<le> 7"
    and eq: "with_number y 1 fw =
       (if 0 < days_before_year y + dy + 7 * (1 - 1) - 3
           \<and> days_before_year y + dy + 7 * (1 - 1) - 3 \<le> MAXORDINAL
        then Inr (Week (fromordinal (days_before_year y + dy + 7 * (1 - 1) - 3)))
        else Inl OverflowError)"
    by metis
  have "365 \<le> days_before_year y"
    using y(1) by (rule days_before_year_ge)
  moreover have "days_before_year y + 365 \<le> MAXORDINAL"
    using days_before_year_le [OF y(2)] days_before_year_step_ge [of y] by simp
  ultimately have "0 < days_before_year y + dy + 7 * (1 - 1) - 3
      \<and> days_before_year y + dy + 7 * (1 - 1) - 3 \<le> MAXORDINAL"
    using dy by simp
  with eq show ?thesis by simp
qed

lemma weeks_of_year_2021_ends:
  "fst (weeks_of_year 2021 MONDAY) ! 0 = Week (Date 2021 1 4)"
  "last (fst (weeks_of_year 2021 MONDAY)) = Week (Date 2021 12 27)"
  by code_simp+

lemma Week_str_2021:
  "Week_str (Week (Date 2021 1 4)) = Inr ''2021-W01''"
  "Week_str (Week (Date 2021 12 27)) = Inr ''2021-W52''"
  by code_simp+

lemma weeks_of_year_2021:
  "snd (weeks_of_year 2021 MONDAY) = None"
  "length (fst (weeks_of_year 2021 MONDAY)) = 52"
  "start (fst (weeks_of_year 2021 MONDAY) ! 0) = Date 2021 1 4"
  "Week_str (fst (weeks_of_year 2021 MONDAY) ! 0) = Inr ''2021-W01''"
  "start (last (fst (weeks_of_year 2021 MONDAY))) = Date 2021 12 27"
  "Week_str (last (fst (weeks_of_year 2021 MONDAY))) = Inr ''2021-W52''"
proof -
  show "snd (weeks_of_year 2021 MONDAY) = None"
    by code_simp
  show "length (fst (weeks_of_year 2021 MONDAY)) = 52"
    by code_simp
  show "start (fst (weeks_of_year 2021 MONDAY) ! 0) = Date 2021 1 4"
    "start (last (fst (weeks_of_year 2021 MONDAY))) = Date 2021 12 27"
    by (simp_all only: weeks_of_year_2021_ends Week.sel)
  show "Week_str (fst (weeks_of_year 2021 MONDAY) ! 0) = Inr ''2021-W01''"
    "Week_str (last (fst (weeks_of_year 2021 MONDAY))) = Inr ''2021-W52''"
    by (simp_all only: weeks_of_year_2021_ends Week_str_2021)
qed

lemma weeks_of_year_2020_ends:
  "fst (weeks_of_year 2020 MONDAY) ! 0 = Week (Date 2019 12 30)"
  "last (fst (weeks_of_year 2020 MONDAY)) = Week (Date 2020 12 28)"
  by code_simp+

lemma weeks_of_year_2020:
  "snd (weeks_of_year 2020 MONDAY) = None"
  "length (fst (weeks_of_year 2020 MONDAY)) = 53"
  "start (fst (weeks_of_year 2020 MONDAY) ! 0) = Date 2019 12 30"
  "start (last (fst (weeks_of_year 2020 MONDAY))) = Date 2020 12 28"
proof -
  show "snd (weeks_of_year 2020 MONDAY) = None"
    by code_simp
  show "length (fst (weeks_of_year 2020 MONDAY)) = 53"
    by code_simp
  show "start (fst (weeks_of_year 2020 MONDAY) ! 0) = Date 2019 12 30"
    "start (last (fst (weeks_of_year 2020 MONDAY))) = Date 2020 12 28"
    by (simp_all only: weeks_of_year_2020_ends Week.sel)
qed

section \<open>The claims\<close>

text \<open>
  C1 (amended). For a week that starts on a date, adding a plain integer \<open>n\<close> never
  raises the ValueError: it returns the week that starts \<open>7 * n\<close> days later when that
  date is a date of the calendar (0001-01-01 to 9999-12-31), and raises OverflowError
  otherwise. Adding a duration of whole days raises the ValueError with the message
  \<open>must add only whole weeks\<close> exactly when the number of days is not a multiple of 7;
  otherwise it returns the week that starts that many days later, or raises OverflowError
  when that date is not a date of the calendar. Subtracting is adding the negation.
\<close>

theorem Week_add_whole_weeks:
  assumes "valid_date (start w)"
    and "td_seconds t = 0" "td_microseconds t = 0" "\<bar>td_days t\<bar> \<le> 999999999"
  shows "Week_add w (IntArg n) =
           (if 0 < toordinal (start w) + 7 * n \<and> toordinal (start w) + 7 * n \<le> MAXORDINAL
            then Inr (Week (fromordinal (toordinal (start w) + 7 * n)))
            else Inl OverflowError)
       \<and> toordinal (fromordinal (toordinal (start w) + 7 * n)) = toordinal (start w) + 7 * n
       \<and> Week_add w (DurArg t) =
           (if td_days t mod 7 \<noteq> 0 then Inl (ValueError ''must add only whole weeks'')
            else if 0 < toordinal (start w) + td_days t \<and> toordinal (start w) + td_days t \<le> MAXORDINAL
            then Inr (Week (fromordinal (toordinal (start w) + td_days t)))
            else Inl OverflowError)
       \<and> (Week_add w (DurArg t) = Inl (ValueError ''must add only whole weeks''))
           = (td_days t mod 7 \<noteq> 0)
       \<and> Week_sub w (IntArg n) = Week_add w (IntArg (- n))
       \<and> Week_sub w (DurArg t) = Week_add w (DurArg (Timedelta (- td_days t) 0 0))"
proof -
  from toordinal_range [OF assms(1)]
  have r: "0 < toordinal (start w)" "toordinal (start w) \<le> MAXORDINAL" .
  have a: "Week_add w (IntArg n) =
           (if 0 < toordinal (start w) + 7 * n \<and> toordinal (start w) + 7 * n \<le> MAXORDINAL
            then Inr (Week (fromordinal (toordinal (start w) + 7 * n)))
            else Inl OverflowError)"
  proof (cases "\<bar>7 * n\<bar> > 999999999")
    case True
    with r have "\<not> (0 < toordinal (start w) + 7 * n \<and> toordinal (start w) + 7 * n \<le> MAXORDINAL)"
      unfolding MAXORDINAL_def by linarith
    with True show ?thesis
      by (simp add: Week_add_def timedelta_new_days)
  next
    case False
    then show ?thesis
      by (simp add: Week_add_def timedelta_new_days date_add_eq)
  qed
  have b: "Week_add w (DurArg t) =
           (if td_days t mod 7 \<noteq> 0 then Inl (ValueError ''must add only whole weeks'')
            else if 0 < toordinal (start w) + td_days t \<and> toordinal (start w) + td_days t \<le> MAXORDINAL
            then Inr (Week (fromordinal (toordinal (start w) + td_days t)))
            else Inl OverflowError)"
    by (simp add: Week_add_def date_add_eq)
  have c: "(Week_add w (DurArg t) = Inl (ValueError ''must add only whole weeks''))
           = (td_days t mod 7 \<noteq> 0)"
    unfolding b by simp
  have d: "Week_sub w (IntArg n) = Week_add w (IntArg (- n))"
    by (simp add: Week_sub_def addend_neg_def)
  have e: "Week_sub w (DurArg t) = Week_add w (DurArg (Timedelta (- td_days t) 0 0))"
    using assms(2,3,4) by (simp add: Week_sub_def addend_neg_def timedelta_neg_def timedelta_new_days)
  from a b c d e show ?thesis by simp
qed

theorem Week_add_whole_weeks_witness:
  "valid_date (start (Week (Date 2021 9 27)))
   \<and> Week_add (Week (Date 2021 9 27)) (IntArg 1) = Inr (Week (Date 2021 10 4))
   \<and> Week_add (Week (Date 2021 9 27)) (DurArg (Timedelta 1 0 0))
       = Inl (ValueError ''must add only whole weeks'')
   \<and> Week_sub (Week (Date 2021 9 27)) (DurArg (Timedelta 21 0 0)) = Inr (Week (Date 2021 9 6))"
proof -
  have v: "valid_date (start (Week (Date 2021 9 27)))"
    by code_simp
  have o: "toordinal (Date 2021 9 27) = 738060" "fromordinal 738067 = Date 2021 10 4"
    "fromordinal 738039 = Date 2021 9 6"
    by code_simp+
  from Week_add_whole_weeks [of "Week (Date 2021 9 27)" "Timedelta 1 0 0" 1, OF v]
    Week_add_whole_weeks [of "Week (Date 2021 9 27)" "Timedelta 21 0 0" 1, OF v]
    Week_add_whole_weeks [of "Week (Date 2021 9 27)" "Timedelta (- 21) 0 0" 1, OF v]
  show ?thesis
    using v by (simp add: o MAXORDINAL_def)
qed

theorem Week_add_overflow_counterexample:
  "Week_add (Week (Date 9999 12 27)) (IntArg 1) = Inl OverflowError
   \<and> Week_gt (Week (Date 2021 9 27)) (NotWeek (1::int)) = Inl NotImplementedError"
  by code_simp

text \<open>
  C2 (amended). For every calendar year \<open>y\<close> (1 to 9999), every first weekday and every
  week number \<open>n\<close> of the year, that is, every \<open>n\<close> whose week \<open>with_number\<close> returns
  and whose year is \<open>y\<close>, the number of that week is \<open>n\<close>. These \<open>n\<close> lie
  between 1 and 53, and from the year 2 on every \<open>n\<close> from 1 to 52 is one of them: there
  the start date is always a date the calendar has.
\<close>

theorem with_number_number_roundtrip:
  assumes "MINYEAR \<le> y" "y \<le> MAXYEAR"
  shows "(\<forall>w. with_number y n fw = Inr w \<and> Week_year w = Inr y
            \<longrightarrow> Week_number w = Inr n \<and> 1 \<le> n \<and> n \<le> 53)
       \<and> (2 \<le> y \<and> 1 \<le> n \<and> n \<le> 52
            \<longrightarrow> (\<exists>w. with_number y n fw = Inr w \<and> Week_year w = Inr y \<and> Week_number w = Inr n))"
proof -
  from assms obtain md dy where
    dy: "1 \<le> dy" "dy \<le> 7"
    and eq: "with_number y n fw =
       (if 0 < days_before_year y + dy + 7 * (n - 1) - 3
           \<and> days_before_year y + dy + 7 * (n - 1) - 3 \<le> MAXORDINAL
        then Inr (Week (fromordinal (days_before_year y + dy + 7 * (n - 1) - 3)))
        else Inl OverflowError)"
    by (rule with_number_cases)
  define s where "s = days_before_year y + dy + 7 * (n - 1) - 3"
  have mid: "s + 3 = days_before_year y + dy + 7 * (n - 1)"
    by (simp add: s_def)
  have a: "Week_number w = Inr n \<and> 1 \<le> n \<and> n \<le> 53"
    if w: "with_number y n fw = Inr w" and wy: "Week_year w = Inr y" for w
  proof -
    from w eq have s: "0 < s" "s \<le> MAXORDINAL" and w': "w = Week (fromordinal s)"
      unfolding s_def by (simp_all split: if_splits)
    from wy have s3: "s + 3 \<le> MAXORDINAL" and yr: "date_year (fromordinal (s + 3)) = y"
      unfolding w' Week_year_fromordinal [OF s(1)] by (simp_all split: if_splits)
    from Week_number_fromordinal [OF s(1) s3] obtain dy' where
      dy0: "1 \<le> dy'" "dy' \<le> 7"
        "(days_before_year (date_year (fromordinal (s + 3))) + dy') mod 7 = (s + 3) mod 7"
        "Week_number (Week (fromordinal s))
          = Inr (1 + (s + 3 - (days_before_year (date_year (fromordinal (s + 3))) + dy')) div 7)"
      by blast
    have dy': "1 \<le> dy'" "dy' \<le> 7"
        "(days_before_year y + dy') mod 7 = (s + 3) mod 7"
        "Week_number w = Inr (1 + (s + 3 - (days_before_year y + dy')) div 7)"
      using dy0 unfolding yr w' by simp_all
    have "(s + 3) mod 7 = (days_before_year y + dy) mod 7"
      unfolding mid by (simp only: mod_mult_self2)
    with dy'(3) have m': "(days_before_year y + dy') mod 7 = (days_before_year y + dy) mod 7"
      by simp
    have "dy' = dy"
      by (rule first_of_year_unique_day [OF dy'(1,2) dy m']) simp
    with dy'(4) have num: "Week_number w = Inr n"
      by (simp add: mid)
    from fromordinal_year_bounds [of "s + 3"]
    have "days_before_year y < s + 3" "s + 3 \<le> days_before_year (y + 1)"
      unfolding yr by simp_all
    with days_before_year_step_le [of y] dy have "1 \<le> n" "n \<le> 53"
      unfolding mid by simp_all
    with num show ?thesis by simp
  qed
  have b: "\<exists>w. with_number y n fw = Inr w \<and> Week_year w = Inr y \<and> Week_number w = Inr n"
    if "2 \<le> y" "1 \<le> n" "n \<le> 52"
  proof -
    have lo: "365 \<le> days_before_year y"
      using that(1) by (rule days_before_year_ge)
    have hi: "days_before_year (y + 1) \<le> MAXORDINAL"
      using assms(2) by (rule days_before_year_le)
    have in_year: "days_before_year y < s + 3" "s + 3 \<le> days_before_year (y + 1)"
      using dy that(2,3) days_before_year_step_ge [of y] unfolding mid by simp_all
    have s: "0 < s" "s + 3 \<le> MAXORDINAL"
      using lo hi in_year by simp_all
    then have w: "with_number y n fw = Inr (Week (fromordinal s))"
      using eq unfolding s_def by simp
    have "date_year (fromordinal (s + 3)) = y"
      using in_year by (rule date_year_fromordinal)
    then have wy: "Week_year (Week (fromordinal s)) = Inr y"
      using s by (simp add: Week_year_fromordinal)
    from a [OF w wy] w wy show ?thesis by simp
  qed
  from a b show ?thesis by blast
qed

theorem with_number_number_roundtrip_witness:
  "MINYEAR \<le> 2021 \<and> 2021 \<le> MAXYEAR
   \<and> (\<exists>w. with_number 2021 30 MONDAY = Inr w \<and> Week_year w = Inr 2021 \<and> Week_number w = Inr 30)"
  using with_number_number_roundtrip [of 2021 30 MONDAY]
  by (simp add: MINYEAR_def MAXYEAR_def)

theorem with_number_first_week_counterexample:
  "with_number 1 1 FRIDAY = Inl OverflowError"
  by code_simp

text \<open>
  C3 (amended). For every year from 1 to 9998 whose first week \<open>with_number\<close> returns
  (every year from 2 on), \<open>weeks_of_year\<close> yields a finite sequence and then stops
  without an error: the sequence starts at that first week, each week is the one before
  plus 7 days, every week yielded has the given year, there are 52 or 53 of them, and
  the week after the last one has the next year. For 2021 under Monday the sequence has
  52 weeks, from the week of 2021-01-04, written \<open>2021-W01\<close>, to the week of 2021-12-27,
  written \<open>2021-W52\<close>; for 2020 it has 53 weeks, from the week of 2019-12-30 to the week
  of 2020-12-28.
\<close>

theorem weeks_of_year_sequence:
  assumes "MINYEAR \<le> y" "y < MAXYEAR"
  shows "(\<forall>w1. with_number y 1 fw = Inr w1 \<longrightarrow>
           (\<exists>ws. weeks_of_year y fw = (ws, None)
              \<and> (length ws = 52 \<or> length ws = 53)
              \<and> ws ! 0 = w1
              \<and> (\<forall>i. Suc i < length ws \<longrightarrow>
                    Week_add (ws ! i) (DurArg SEVEN_DAYS) = Inr (ws ! Suc i)
                    \<and> toordinal (start (ws ! Suc i)) = toordinal (start (ws ! i)) + 7)
              \<and> (\<forall>i < length ws. Week_year (ws ! i) = Inr y)
              \<and> (\<exists>w'. Week_add (last ws) (DurArg SEVEN_DAYS) = Inr w'
                    \<and> Week_year w' = Inr (y + 1))))
       \<and> (2 \<le> y \<longrightarrow> (\<exists>w1. with_number y 1 fw = Inr w1))
       \<and> snd (weeks_of_year 2021 MONDAY) = None
       \<and> length (fst (weeks_of_year 2021 MONDAY)) = 52
       \<and> start (fst (weeks_of_year 2021 MONDAY) ! 0) = Date 2021 1 4
       \<and> Week_str (fst (weeks_of_year 2021 MONDAY) ! 0) = Inr ''2021-W01''
       \<and> start (last (fst (weeks_of_year 2021 MONDAY))) = Date 2021 12 27
       \<and> Week_str (last (fst (weeks_of_year 2021 MONDAY))) = Inr ''2021-W52''
       \<and> snd (weeks_of_year 2020 MONDAY) = None
       \<and> length (fst (weeks_of_year 2020 MONDAY)) = 53
       \<and> start (fst (weeks_of_year 2020 MONDAY) ! 0) = Date 2019 12 30
       \<and> start (last (fst (weeks_of_year 2020 MONDAY))) = Date 2020 12 28"
proof -
  have a: "\<exists>ws. weeks_of_year y fw = (ws, None)
              \<and> (length ws = 52 \<or> length ws = 53)
              \<and> ws ! 0 = w1
              \<and> (\<forall>i. Suc i < length ws \<longrightarrow>
                    Week_add (ws ! i) (DurArg SEVEN_DAYS) = Inr (ws ! Suc i)
                    \<and> toordinal (start (ws ! Suc i)) = toordinal (start (ws ! i)) + 7)
              \<and> (\<forall>i < length ws. Week_year (ws ! i) = Inr y)
              \<and> (\<exists>w'. Week_add (last ws) (DurArg SEVEN_DAYS) = Inr w'
                    \<and> Week_year w' = Inr (y + 1))"
    if "with_number y 1 fw = Inr w1" for w1
    using assms that by (rule weeks_of_year_props)
  have b: "\<exists>w1. with_number y 1 fw = Inr w1" if "2 \<le> y"
    using that assms(2) by (intro with_number_first_exists) simp_all
  show ?thesis
    by (intro conjI allI impI;
        (erule a | erule b | rule weeks_of_year_2021 | rule weeks_of_year_2020))
qed

theorem weeks_of_year_sequence_witness:
  "MINYEAR \<le> 2021 \<and> 2021 < MAXYEAR
   \<and> with_number 2021 1 MONDAY = Inr (Week (Date 2021 1 4))
   \<and> (\<exists>ws. weeks_of_year 2021 MONDAY = (ws, None)
         \<and> (length ws = 52 \<or> length ws = 53)
         \<and> ws ! 0 = Week (Date 2021 1 4)
         \<and> (\<exists>w'. Week_add (last ws) (DurArg SEVEN_DAYS) = Inr w' \<and> Week_year w' = Inr (2021 + 1)))"
proof -
  have y: "MINYEAR \<le> 2021" "2021 < MAXYEAR"
    by (simp_all add: MINYEAR_def MAXYEAR_def)
  have w: "with_number 2021 1 MONDAY = Inr (Week (Date 2021 1 4))"
    by code_simp
  note th = weeks_of_year_sequence [OF y, of MONDAY, THEN conjunct1, rule_format, OF w]
  from th obtain ws where all: "weeks_of_year 2021 MONDAY = (ws, None)
              \<and> (length ws = 52 \<or> length ws = 53)
              \<and> ws ! 0 = Week (Date 2021 1 4)
              \<and> (\<forall>i. Suc i < length ws \<longrightarrow>
                    Week_add (ws ! i) (DurArg SEVEN_DAYS) = Inr (ws ! Suc i)
                    \<and> toordinal (start (ws ! Suc i)) = toordinal (start (ws ! i)) + 7)
              \<and> (\<forall>i < length ws. Week_year (ws ! i) = Inr 2021)
              \<and> (\<exists>w'. Week_add (last ws) (DurArg SEVEN_DAYS) = Inr w'
                    \<and> Week_year w' = Inr (2021 + 1))" ..
  note 1 = all [THEN conjunct1]
    and 2 = all [THEN conjunct2, THEN conjunct1]
    and 3 = all [THEN conjunct2, THEN conjunct2, THEN conjunct1]
    and 4 = all [THEN conjunct2, THEN conjunct2, THEN conjunct2, THEN conjunct2, THEN conjunct2]
  show ?thesis
    by (intro conjI exI [of _ ws]) (rule y w 1 2 3 4)+
qed

theorem weeks_of_year_overflow_counterexample:
  "snd (weeks_of_year 9999 MONDAY) = Some OverflowError
   \<and> length (fst (weeks_of_year 9999 MONDAY)) = 52"
  by code_simp

text \<open>
  C4. Adding an integer to a weekday, or subtracting one, never fails, whatever the sign
  of the integer: the result is the weekday whose ordinal is
  \<open>((ordinal + n - 1) mod 7) + 1\<close>, with the remainder taken in 0..6, so the ordinal
  lies in 1..7; and subtracting \<open>n\<close> is adding \<open>- n\<close>.
\<close>

theorem Weekday_arithmetic_total:
  "(\<exists>w. Weekday_add self n = Inr w
        \<and> Weekday_value w = (Weekday_value self + n - 1) mod 7 + 1
        \<and> Weekday_value w \<in> {1..7})
   \<and> 0 \<le> (Weekday_value self + n - 1) mod 7 \<and> (Weekday_value self + n - 1) mod 7 < 7
   \<and> (\<exists>w. Weekday_sub self (IntegerArg n) = Inr (WeekdayResult w)
        \<and> Weekday_add self (- n) = Inr w
        \<and> Weekday_value w \<in> {1..7})"
proof -
  obtain w where w: "Weekday_add self n = Inr w"
    "Weekday_value w = (Weekday_value self + n - 1) mod 7 + 1"
    using Weekday_add_value by blast
  obtain w' where w': "Weekday_add self (- n) = Inr w'"
    using Weekday_add_value by blast
  have "Weekday_sub self (IntegerArg n) = Inr (WeekdayResult w')"
    by (simp add: Weekday_sub_def bind_err_def w')
  with w w' Weekday_value_range [of w] Weekday_value_range [of w'] show ?thesis
    by simp
qed

text \<open>
  C5. For every calendar year \<open>y\<close> (1 to 9999, the years a date can have) and every
  weekday \<open>w\<close>, \<open>first_of_year\<close> returns a date of January \<open>y\<close>, between the 1st and
  the 7th, that falls on \<open>w\<close>; no earlier day of that January does.
\<close>

theorem first_of_year_in_first_week:
  assumes "MINYEAR \<le> y" "y \<le> MAXYEAR"
  shows "\<exists>dy. first_of_year w y = Inr (Date y 1 dy) \<and> 1 \<le> dy \<and> dy \<le> 7
          \<and> valid_date (Date y 1 dy) \<and> for_date (Date y 1 dy) = Inr w
          \<and> (\<forall>dy'. 1 \<le> dy' \<and> dy' < dy \<longrightarrow> for_date (Date y 1 dy') \<noteq> Inr w)"
proof -
  from first_of_year_ordinal [OF assms, of w] obtain dy where
    dy: "first_of_year w y = Inr (Date y 1 dy)" "1 \<le> dy" "dy \<le> 7"
      "(days_before_year y + dy) mod 7 = Weekday_value w mod 7"
    by blast
  have v: "valid_date (Date y 1 dy)"
    using assms dy(2,3) by (rule valid_jan)
  have "isoweekday (Date y 1 dy) = Weekday_value w"
    using Weekday_value_range [of w] dy(4) by (intro isoweekday_eqI) (simp_all add: toordinal_jan)
  then have f: "for_date (Date y 1 dy) = Inr w"
    by (simp add: for_date_iff)
  have "for_date (Date y 1 dy') \<noteq> Inr w" if "1 \<le> dy'" "dy' < dy" for dy'
  proof
    assume "for_date (Date y 1 dy') = Inr w"
    then have "isoweekday (Date y 1 dy') = Weekday_value w"
      by (simp add: for_date_iff)
    then have m': "(days_before_year y + dy') mod 7 = Weekday_value w mod 7"
      using isoweekday_mod [of "Date y 1 dy'"] by (simp only: toordinal_jan)
    have "dy' = dy"
      by (rule first_of_year_unique_day [OF _ _ _ _ m' dy(4)]) (use that dy(2,3) in simp_all)
    with that show False by simp
  qed
  with dy(1,2,3) v f show ?thesis by blast
qed

theorem first_of_year_in_first_week_witness:
  "MINYEAR \<le> 2010 \<and> 2010 \<le> MAXYEAR
   \<and> (\<exists>dy. first_of_year THURSDAY 2010 = Inr (Date 2010 1 dy) \<and> 1 \<le> dy \<and> dy \<le> 7
          \<and> for_date (Date 2010 1 dy) = Inr THURSDAY)"
  using first_of_year_in_first_week [of 2010 THURSDAY]
  by (simp add: MINYEAR_def MAXYEAR_def) blast

text \<open>
  C6 (amended). For every week that starts on a date and has an end, that is, whose start
  plus 7 days is still a date of the calendar (a start up to 9999-12-24): the end is 7
  days after the start; a date is contained exactly when it is not before the start and
  before the end; the start is contained, the end is not, and exactly 7 dates are;
  iterating yields these 7 dates, the start and the 6 days after it, in ascending order,
  and then stops.
\<close>

theorem Week_contains_half_open:
  assumes "valid_date (start w)" and "Week_end w = Inr e"
  shows "valid_date e \<and> toordinal e = toordinal (start w) + 7
       \<and> (\<forall>d. Week_contains w d = Inr (date_le (start w) d \<and> date_lt d e))
       \<and> Week_contains w (start w) = Inr True
       \<and> Week_contains w e = Inr False
       \<and> card {d. valid_date d \<and> Week_contains w d = Inr True} = 7
       \<and> Week_iter w = (map (\<lambda>i. fromordinal (toordinal (start w) + i)) [0, 1, 2, 3, 4, 5, 6], None)
       \<and> set (fst (Week_iter w)) = {d. valid_date d \<and> Week_contains w d = Inr True}
       \<and> fst (Week_iter w) ! 0 = start w
       \<and> (\<forall>i < 6. date_lt (fst (Week_iter w) ! i) (fst (Week_iter w) ! Suc i))"
proof -
  let ?o = "toordinal (start w)"
  from assms(2) have e: "valid_date e" "toordinal e = ?o + 7" "?o + 7 \<le> MAXORDINAL"
    using date_add_valid [of "start w" SEVEN_DAYS e]
    by (simp_all add: Week_end_def SEVEN_DAYS_def)
  from toordinal_range [OF assms(1)] have o: "0 < ?o" by simp
  have c: "Week_contains w d = Inr (date_le (start w) d \<and> date_lt d e)" for d
    by (simp add: Week_contains_def assms(2))
  have cs: "Week_contains w (start w) = Inr True"
    unfolding c using assms(1) e by (simp add: date_le_def date_lt_iff)
  have ce: "Week_contains w e = Inr False"
    unfolding c by (simp add: date_lt_irrefl)
  have set_eq: "{d. valid_date d \<and> Week_contains w d = Inr True} = fromordinal ` {?o..<?o + 7}"
  proof -
    have "{d. valid_date d \<and> Week_contains w d = Inr True}
        = {d. valid_date d \<and> ?o \<le> toordinal d \<and> toordinal d < ?o + 7}"
      unfolding c using assms(1) e(1,2) by (auto simp: date_le_iff date_lt_iff)
    also have "\<dots> = fromordinal ` {?o..<?o + 7}"
      using o e(3) by (intro valid_dates_between) simp_all
    finally show ?thesis .
  qed
  have card7: "card {d. valid_date d \<and> Week_contains w d = Inr True} = 7"
    unfolding set_eq by (simp add: card_image inj_on_fromordinal)
  have it: "Week_iter w = (map (\<lambda>i. fromordinal (?o + i)) [0, 1, 2, 3, 4, 5, 6], None)"
    using o e(3) by (intro Week_iter_eq) simp_all
  have "{?o..<?o + 7} = {?o, ?o + 1, ?o + 2, ?o + 3, ?o + 4, ?o + 5, ?o + 6}"
    by auto
  then have its: "set (fst (Week_iter w)) = {d. valid_date d \<and> Week_contains w d = Inr True}"
    unfolding set_eq it by simp
  have first: "fst (Week_iter w) ! 0 = start w"
    unfolding it using assms(1) by (simp add: fromordinal_toordinal)
  have asc: "date_lt (fst (Week_iter w) ! i) (fst (Week_iter w) ! Suc i)" if "i < 6" for i
  proof -
    from that have "i \<in> {0, 1, 2, 3, 4, 5}" by simp arith
    then have "i = 0 \<or> i = 1 \<or> i = 2 \<or> i = 3 \<or> i = 4 \<or> i = 5" by simp
    then show ?thesis
      unfolding it using o e(3) by (elim disjE) (simp_all add: date_lt_fromordinal)
  qed
  show ?thesis
    by (intro conjI allI impI) (rule e(1) e(2) c cs ce card7 it its first asc | assumption)+
qed

theorem Week_contains_half_open_witness:
  "valid_date (start (Week (Date 2021 9 27)))
   \<and> Week_end (Week (Date 2021 9 27)) = Inr (Date 2021 10 4)
   \<and> Week_contains (Week (Date 2021 9 27)) (start (Week (Date 2021 9 27))) = Inr True
   \<and> Week_contains (Week (Date 2021 9 27)) (Date 2021 10 4) = Inr False
   \<and> card {d. valid_date d \<and> Week_contains (Week (Date 2021 9 27)) d = Inr True} = 7"
proof -
  have v: "valid_date (start (Week (Date 2021 9 27)))"
    by code_simp
  have e: "Week_end (Week (Date 2021 9 27)) = Inr (Date 2021 10 4)"
    by code_simp
  from Week_contains_half_open [OF v e] v e show ?thesis
    by (elim conjE, intro conjI) assumption+
qed

theorem Week_contains_overflow_counterexample:
  "with_date (Date 9999 12 31) MONDAY = Inr (Week (Date 9999 12 27))
   \<and> Week_contains (Week (Date 9999 12 27)) (Date 9999 12 27) = Inl OverflowError
   \<and> Week_contains (Week (Date 9999 12 27)) (Date 9999 12 31) = Inl OverflowError"
  by code_simp

text \<open>
  C7 (amended). For every date \<open>d\<close> and first weekday \<open>fw\<close>, \<open>with_date\<close> goes back from
  \<open>d\<close> by \<open>(isoweekday d - fw) mod 7\<close> days, the difference of the weekday of \<open>d\<close> and
  \<open>fw\<close>, which is 0 when \<open>d\<close> falls on \<open>fw\<close>, and raises
  OverflowError when that leaves the calendar, which can happen only in the first 6 days
  of the year 1. When it returns a week, the start is a date that falls on \<open>fw\<close>, is not
  after \<open>d\<close>, and is the latest such date; and \<open>with_date\<close> of that start is the same
  week. The week of 2021-01-01 under Monday starts on 2020-12-28.
\<close>

theorem with_date_snaps_back:
  assumes "valid_date d"
  shows "(\<forall>w. with_date d fw = Inr w \<longrightarrow>
            valid_date (start w)
          \<and> toordinal (start w) = toordinal d - (isoweekday d - Weekday_value fw) mod 7
          \<and> (\<forall>wd. for_date d = Inr wd \<longrightarrow>
                toordinal (start w) = toordinal d - Weekday_difference wd fw)
          \<and> 0 \<le> (isoweekday d - Weekday_value fw) mod 7 \<and> (isoweekday d - Weekday_value fw) mod 7 < 7
          \<and> (for_date d = Inr fw \<longrightarrow> start w = d)
          \<and> for_date (start w) = Inr fw
          \<and> date_le (start w) d
          \<and> (\<forall>d'. valid_date d' \<and> for_date d' = Inr fw \<and> date_le d' d \<longrightarrow> date_le d' (start w))
          \<and> with_date (start w) fw = Inr w)
       \<and> ((\<exists>w. with_date d fw = Inr w) \<or> with_date d fw = Inl OverflowError)
       \<and> (7 \<le> toordinal d \<longrightarrow> (\<exists>w. with_date d fw = Inr w))
       \<and> with_date (Date 2021 1 1) MONDAY = Inr (Week (Date 2020 12 28))"
proof -
  define delta where "delta = (isoweekday d - Weekday_value fw) mod 7"
  define s where "s = toordinal d - delta"
  have b: "0 \<le> delta" "delta < 7" by (simp_all add: delta_def)
  from toordinal_range [OF assms] have od: "0 < toordinal d" "toordinal d \<le> MAXORDINAL" .
  have hi: "s \<le> MAXORDINAL" using od b by (simp add: s_def)
  have eq: "with_date d fw = (if 0 < s then Inr (Week (fromordinal s)) else Inl OverflowError)"
    using hi unfolding s_def delta_def by (simp add: with_date_eq)
  have smod: "s mod 7 = Weekday_value fw mod 7"
  proof -
    have "toordinal d mod 7 = isoweekday d mod 7"
      by (simp add: isoweekday_mod)
    then have "7 dvd toordinal d - isoweekday d"
      by (simp only: mod_eq_dvd_iff)
    then obtain k where k: "toordinal d - isoweekday d = 7 * k" ..
    have "s mod 7 = (toordinal d - (isoweekday d - Weekday_value fw) mod 7) mod 7"
      by (simp add: s_def delta_def)
    also have "\<dots> = (toordinal d - (isoweekday d - Weekday_value fw)) mod 7"
      by (simp only: mod_diff_right_eq)
    also have "toordinal d - (isoweekday d - Weekday_value fw) = Weekday_value fw + 7 * k"
      using k by simp
    also have "(Weekday_value fw + 7 * k) mod 7 = Weekday_value fw mod 7"
      by (simp only: mod_mult_self2)
    finally show ?thesis .
  qed
  have a: "valid_date (start w)
          \<and> toordinal (start w) = toordinal d - (isoweekday d - Weekday_value fw) mod 7
          \<and> (\<forall>wd. for_date d = Inr wd \<longrightarrow>
                toordinal (start w) = toordinal d - Weekday_difference wd fw)
          \<and> 0 \<le> (isoweekday d - Weekday_value fw) mod 7 \<and> (isoweekday d - Weekday_value fw) mod 7 < 7
          \<and> (for_date d = Inr fw \<longrightarrow> start w = d)
          \<and> for_date (start w) = Inr fw
          \<and> date_le (start w) d
          \<and> (\<forall>d'. valid_date d' \<and> for_date d' = Inr fw \<and> date_le d' d \<longrightarrow> date_le d' (start w))
          \<and> with_date (start w) fw = Inr w"
    if w: "with_date d fw = Inr w" for w
  proof -
    from w eq have s: "0 < s" and w': "w = Week (fromordinal s)"
      by (simp_all split: if_splits)
    have v: "valid_date (start w)"
      unfolding w' using s hi by (simp add: valid_fromordinal)
    have o: "toordinal (start w) = s"
      by (simp add: w')
    have diff: "toordinal (start w) = toordinal d - Weekday_difference wd fw"
      if "for_date d = Inr wd" for wd
      using that by (simp add: o s_def delta_def Weekday_difference_def for_date_iff)
    have same: "start w = d" if "for_date d = Inr fw"
    proof -
      from that have "delta = 0" by (simp add: delta_def for_date_iff)
      then have "s = toordinal d" by (simp add: s_def)
      then show ?thesis using assms by (simp add: w' fromordinal_toordinal)
    qed
    have f: "for_date (start w) = Inr fw"
      using smod first_weekday_fromordinal [of s fw] by (simp add: w' first_weekday_def)
    have le: "date_le (start w) d"
      using v assms b by (simp add: date_le_iff o s_def)
    have latest: "date_le d' (start w)"
      if d': "valid_date d'" "for_date d' = Inr fw" "date_le d' d" for d'
    proof (rule ccontr)
      assume "\<not> date_le d' (start w)"
      then have gt: "s < toordinal d'"
        using v d'(1) by (simp add: date_le_iff o)
      from d'(3) have "toordinal d' \<le> toordinal d"
        using d'(1) assms by (simp add: date_le_iff)
      with b have lt: "toordinal d' - s < 7" by (simp add: s_def)
      from d'(2) have "toordinal d' mod 7 = Weekday_value fw mod 7"
        using isoweekday_mod [of d'] by (simp add: for_date_iff)
      with smod have "toordinal d' mod 7 = s mod 7" by simp
      then have "7 dvd toordinal d' - s" by (simp only: mod_eq_dvd_iff)
      with gt lt show False by (simp add: zdvd_not_zless)
    qed
    have idem: "with_date (start w) fw = Inr w"
    proof -
      from f have "isoweekday (start w) = Weekday_value fw"
        by (simp add: for_date_iff)
      then show ?thesis
        using s hi by (simp add: with_date_eq o) (simp add: w')
    qed
    show ?thesis
      using v o diff same f le latest idem b unfolding s_def delta_def by blast
  qed
  have c: "(\<exists>w. with_date d fw = Inr w) \<or> with_date d fw = Inl OverflowError"
    unfolding eq by simp
  have e: "\<exists>w. with_date d fw = Inr w" if "7 \<le> toordinal d"
    unfolding eq using that b by (simp add: s_def)
  have x: "with_date (Date 2021 1 1) MONDAY = Inr (Week (Date 2020 12 28))"
    by code_simp
  from a c e x show ?thesis by blast
qed

theorem with_date_snaps_back_witness:
  "valid_date (Date 2021 1 2)
   \<and> with_date (Date 2021 1 2) SUNDAY = Inr (Week (Date 2020 12 27))
   \<and> for_date (start (Week (Date 2020 12 27))) = Inr SUNDAY
   \<and> date_le (start (Week (Date 2020 12 27))) (Date 2021 1 2)
   \<and> with_date (start (Week (Date 2020 12 27))) SUNDAY = Inr (Week (Date 2020 12 27))"
proof -
  have v: "valid_date (Date 2021 1 2)"
    by code_simp
  have e: "with_date (Date 2021 1 2) SUNDAY = Inr (Week (Date 2020 12 27))"
    by code_simp
  from with_date_snaps_back [OF v, of SUNDAY] e v show ?thesis
    by blast
qed

theorem with_date_overflow_counterexample:
  "with_date (Date 1 1 1) TUESDAY = Inl OverflowError"
  by code_simp

text \<open>
  C8. \<open>Week.__gt__\<close> against a Week compares the start dates, as dates compare; against
  anything that is not a Week it raises NotImplementedError, a runtime error, and returns
  no boolean.
\<close>

theorem Week_gt_only_between_weeks:
  "Week_gt a (IsWeek b) = Inr (date_gt (start a) (start b))
   \<and> Week_gt a (NotWeek x) = Inl NotImplementedError
   \<and> (\<forall>r. Week_gt a (NotWeek x) \<noteq> Inr r)"
  by (simp add: Week_gt_def)

text \<open>
  C9 (amended). For every calendar year \<open>y\<close> (1 to 9999), every first weekday and every
  integer \<open>n\<close>, with no check of \<open>n\<close> against the weeks of the year, \<open>with_number\<close>
  either returns a week whose first weekday is the requested one, or raises OverflowError;
  it raises exactly when the start date, 3 days before the first midday of the year plus
  \<open>7 * (n - 1)\<close> days, is not a date between 0001-01-01 and 9999-12-31. For the years 2 to
  9998 every \<open>n\<close> from -50 to 104 is accepted.
\<close>

theorem with_number_first_weekday:
  assumes "MINYEAR \<le> y" "y \<le> MAXYEAR"
  shows "((\<exists>w. with_number y n fw = Inr w \<and> first_weekday w = Inr fw)
          \<or> with_number y n fw = Inl OverflowError)
       \<and> (\<exists>md fm. Weekday_add fw 3 = Inr md \<and> first_of_year md y = Inr fm
            \<and> ((\<exists>w. with_number y n fw = Inr w)
                 = (0 < toordinal fm + 7 * (n - 1) - 3
                    \<and> toordinal fm + 7 * (n - 1) - 3 \<le> MAXORDINAL)))
       \<and> (2 \<le> y \<and> y \<le> 9998 \<and> - 50 \<le> n \<and> n \<le> 104 \<longrightarrow> (\<exists>w. with_number y n fw = Inr w))"
proof -
  from assms obtain md dy where
    md: "Weekday_add fw 3 = Inr md" and fm: "first_of_year md y = Inr (Date y 1 dy)"
    and dy: "1 \<le> dy" "dy \<le> 7"
    and m: "(days_before_year y + dy) mod 7 = (Weekday_value fw + 3) mod 7"
    and eq: "with_number y n fw =
       (if 0 < days_before_year y + dy + 7 * (n - 1) - 3
           \<and> days_before_year y + dy + 7 * (n - 1) - 3 \<le> MAXORDINAL
        then Inr (Week (fromordinal (days_before_year y + dy + 7 * (n - 1) - 3)))
        else Inl OverflowError)"
    by (rule with_number_cases)
  let ?s = "days_before_year y + dy + 7 * (n - 1) - 3"
  have "?s mod 7 = (days_before_year y + dy - 3 + 7 * (n - 1)) mod 7"
    by (simp add: algebra_simps)
  also have "\<dots> = (days_before_year y + dy - 3) mod 7"
    by (simp only: mod_mult_self2)
  also have "\<dots> = ((days_before_year y + dy) mod 7 - 3) mod 7"
    by (simp only: mod_diff_left_eq)
  also have "\<dots> = (Weekday_value fw + 3 - 3) mod 7"
    unfolding m by (simp only: mod_diff_left_eq)
  finally have "?s mod 7 = Weekday_value fw mod 7" by simp
  then have fw: "first_weekday (Week (fromordinal ?s)) = Inr fw"
    by (simp only: first_weekday_fromordinal)
  have a: "(\<exists>w. with_number y n fw = Inr w \<and> first_weekday w = Inr fw)
          \<or> with_number y n fw = Inl OverflowError"
    using eq fw by (cases "0 < ?s \<and> ?s \<le> MAXORDINAL") simp_all
  have b: "(\<exists>w. with_number y n fw = Inr w)
      = (0 < toordinal (Date y 1 dy) + 7 * (n - 1) - 3
          \<and> toordinal (Date y 1 dy) + 7 * (n - 1) - 3 \<le> MAXORDINAL)"
    unfolding toordinal_jan using eq by (cases "0 < ?s \<and> ?s \<le> MAXORDINAL") simp_all
  have c: "\<exists>w. with_number y n fw = Inr w" if "2 \<le> y" "y \<le> 9998" "- 50 \<le> n" "n \<le> 104"
  proof -
    have "365 \<le> days_before_year y"
      using that(1) by (rule days_before_year_ge)
    moreover have "days_before_year y \<le> days_before_year 9998"
      using that(2) by (rule days_before_year_mono)
    then have "days_before_year y \<le> 3651329"
      by (simp add: days_before_year_def)
    ultimately have "0 < ?s \<and> ?s \<le> MAXORDINAL"
      using dy that(3,4) by (simp add: MAXORDINAL_def)
    with eq show ?thesis by simp
  qed
  from a b c md fm show ?thesis by blast
qed

theorem with_number_first_weekday_witness:
  "MINYEAR \<le> 2021 \<and> 2021 \<le> MAXYEAR
   \<and> (\<exists>w. with_number 2021 0 SUNDAY = Inr w \<and> first_weekday w = Inr SUNDAY)"
proof -
  have "with_number 2021 0 SUNDAY \<noteq> Inl OverflowError"
    by code_simp
  with with_number_first_weekday [of 2021 0 SUNDAY] show ?thesis
    by (simp add: MINYEAR_def MAXYEAR_def)
qed

theorem with_number_overflow_counterexample:
  "with_number 9999 54 MONDAY = Inl OverflowError \<and> with_number 1 0 MONDAY = Inl OverflowError"
  by code_simp

text \<open>
  C10. \<open>Week.__eq__\<close> returns a boolean and never raises: False against anything that is
  not a Week, and against a Week the equality of the start dates. The hash is the hash of
  the pair of the class and the start, whatever the hash function of pairs is, so two
  equal Weeks have the same hash.
\<close>

theorem Week_eq_and_hash:
  "Week_eq a (NotWeek x) = False
   \<and> Week_eq a (IsWeek b) = (start a = start b)
   \<and> Week_hash tuple_hash a = tuple_hash (WeekClass, start a)
   \<and> (Week_eq a (IsWeek b) \<longrightarrow> Week_hash tuple_hash a = Week_hash tuple_hash b)"
  by (simp add: Week_eq_def Week_hash_def)

theorem Week_eq_and_hash_witness:
  "Week_eq (Week (Date 2021 1 18)) (IsWeek (Week (Date 2021 1 18)))
   \<and> Week_hash (\<lambda>p. toordinal (snd p)) (Week (Date 2021 1 18))
       = Week_hash (\<lambda>p. toordinal (snd p)) (Week (Date 2021 1 18))
   \<and> Week_eq (Week (Date 2021 1 18)) (NotWeek (5::int)) = False"
  using Week_eq_and_hash [of "Week (Date 2021 1 18)" "5::int" "Week (Date 2021 1 18)"
      "\<lambda>p. toordinal (snd p)"]
  by auto

end
